theory Spec2Isabelle
  imports Complex_Main
begin

section \<open>Strongin's method: work splitting, Lipschitz estimate, characteristic selection\<close>

text \<open>
  A shallow embedding of \<^verbatim>\<open>strongin_method.cpp\<close>.

  \<^item> \<^verbatim>\<open>size_t\<close> values are \<^typ>\<open>nat\<close>: the splitter only divides, subtracts a
    quotient from its dividend and decrements a counter that is checked to be non-zero
    first; an index counts up to a vector's size. No operation wraps.
  \<^item> \<^verbatim>\<open>int\<close> indices are \<^typ>\<open>int\<close>; \<open>-1\<close> is the "no index" value of the selector.
  \<^item> \<^verbatim>\<open>double\<close> has two models. The Lipschitz estimate, the correction term and the
    characteristic selector are modelled over \<^typ>\<open>real\<close>, in exact arithmetic: what is
    proved of them is about which of the computed values is returned. The optimization
    loop depends on rounding and overflow, and is modelled in IEEE 754 binary64 (the
    type \<open>double\<close> below), together with binary64 versions of the sequential
    sub-computations it calls.
  \<^item> Every abnormal end is a value of \<open>error\<close>: an unchecked access out of range
    (\<^verbatim>\<open>operator[]\<close>), a checked one (\<^verbatim>\<open>at\<close> throws \<^verbatim>\<open>std::out_of_range\<close>), an integer
    division by zero, a failed \<^verbatim>\<open>assert\<close> (assertions enabled), a block read past
    the end of a vector, a receive that no send matches.
\<close>

datatype error =
    IndexOutOfBounds
  | OutOfRange
  | DivisionByZero
  | AssertionFailed
  | BufferOverrun
  | MissingMessage

subsection \<open>WorkSplitter\<close>

text \<open>The first branch of the constructor: \<^verbatim>\<open>for (cw = 0; cw < work; ++cw) wd[cw] = 1\<close>.\<close>

function fill_loop :: "nat \<Rightarrow> nat \<Rightarrow> nat list \<Rightarrow> error + nat list" where
  "fill_loop work currentWorker wd =
     (if currentWorker < work then
        (if length wd \<le> currentWorker then Inl IndexOutOfBounds
         else fill_loop work (Suc currentWorker) (wd[currentWorker := 1]))
      else Inr wd)"
  by pat_completeness auto
termination
  by (relation "measure (\<lambda>(work, currentWorker, wd). work - currentWorker)") auto

text \<open>
  The second branch: \<^verbatim>\<open>for (cw = 0; work != 0; ++cw)\<close>. The result carries the final
  value of \<^verbatim>\<open>currentWorker\<close>, which is the number of passes made.
\<close>

function split_loop :: "nat \<Rightarrow> nat \<Rightarrow> nat \<Rightarrow> nat list \<Rightarrow> error + (nat \<times> nat list)" where
  "split_loop work workerCount currentWorker wd =
     (if work \<noteq> 0 then
        (if workerCount = 0 then Inl DivisionByZero
         else if length wd \<le> currentWorker then Inl IndexOutOfBounds
         else split_loop (work - work div workerCount) (workerCount - 1) (Suc currentWorker)
                (wd[currentWorker := work div workerCount]))
      else Inr (currentWorker, wd))"
  by pat_completeness auto
termination
  by (relation "measure (\<lambda>(work, workerCount, currentWorker, wd). workerCount)") auto

text \<open>The constructor; the value is \<^verbatim>\<open>m_workDistribution\<close>.\<close>

definition WorkSplitter :: "nat \<Rightarrow> nat \<Rightarrow> error + nat list" where
  "WorkSplitter work workerCount =
     (if work \<le> workerCount then fill_loop work 0 (replicate workerCount 0)
      else (case split_loop work workerCount 0 (replicate workerCount 0) of
              Inl e \<Rightarrow> Inl e
            | Inr (passes, wd) \<Rightarrow> Inr wd))"

text \<open>
  The states in which the body of the second loop is entered (\<open>work\<close>, \<open>workerCount\<close>,
  \<open>currentWorker\<close>), in order.
\<close>

function split_passes :: "nat \<Rightarrow> nat \<Rightarrow> nat \<Rightarrow> (nat \<times> nat \<times> nat) list" where
  "split_passes work workerCount currentWorker =
     (if work \<noteq> 0 \<and> workerCount \<noteq> 0 then
        (work, workerCount, currentWorker) #
          split_passes (work - work div workerCount) (workerCount - 1) (Suc currentWorker)
      else [])"
  by pat_completeness auto
termination
  by (relation "measure (\<lambda>(work, workerCount, currentWorker). workerCount)") auto

definition GetPartWork :: "nat list \<Rightarrow> nat \<Rightarrow> error + nat" where
  "GetPartWork wd workerNumber =
     (if workerNumber < length wd then Inr (wd ! workerNumber) else Inl IndexOutOfBounds)"

function prev_loop :: "nat list \<Rightarrow> nat \<Rightarrow> nat \<Rightarrow> nat \<Rightarrow> error + nat" where
  "prev_loop wd workerNumber i work =
     (if i < workerNumber then
        (if i < length wd then prev_loop wd workerNumber (Suc i) (work + wd ! i)
         else Inl OutOfRange)
      else Inr work)"
  by pat_completeness auto
termination
  by (relation "measure (\<lambda>(wd, workerNumber, i, work). workerNumber - i)") auto

definition GetPrevPartWork :: "nat list \<Rightarrow> nat \<Rightarrow> error + nat" where
  "GetPrevPartWork wd workerNumber = prev_loop wd workerNumber 0 0"

declare fill_loop.simps [simp del]
declare split_loop.simps [simp del]
declare split_passes.simps [simp del]
declare prev_loop.simps [simp del]

text \<open>
  The closed form of the second branch's output, used to state what the loop computes:
  the first \<open>workerCount - work mod workerCount\<close> workers get the quotient, the others one
  more.
\<close>

definition spread :: "nat \<Rightarrow> nat \<Rightarrow> nat list" where
  "spread work workerCount =
     replicate (workerCount - work mod workerCount) (work div workerCount) @
     replicate (work mod workerCount) (work div workerCount + 1)"

subsection \<open>Segments and checked access\<close>

text \<open>
  \<^verbatim>\<open>struct Segment { double begin; double end; }\<close> and \<^verbatim>\<open>Function\<close>, a callable from
  \<^verbatim>\<open>double\<close> to \<^verbatim>\<open>double\<close>, are declared in the header; a function argument is a pure
  function \<^typ>\<open>real \<Rightarrow> real\<close>.
\<close>

record Segment =
  seg_begin :: real
  seg_end :: real

text \<open>\<^verbatim>\<open>DBL_MAX\<close>, the largest finite double, \<^verbatim>\<open>0x1.fffffffffffffp+1023\<close>.\<close>

definition DBL_MAX :: real where
  "DBL_MAX = 2 ^ 1024 - 2 ^ 971"

text \<open>
  \<^verbatim>\<open>v.at(i)\<close> with an \<^verbatim>\<open>int\<close> argument: the conversion to \<^verbatim>\<open>size_t\<close> sends a negative
  index beyond every size, so the access throws.
\<close>

definition vector_at :: "'a list \<Rightarrow> int \<Rightarrow> error + 'a" where
  "vector_at v i = (if 0 \<le> i \<and> nat i < length v then Inr (v ! nat i) else Inl OutOfRange)"

subsection \<open>The Lipschitz estimate, sequential\<close>

text \<open>
  The body of the loop of \<^verbatim>\<open>Calculate_M<Sequential>\<close>. Inside the loops \<^verbatim>\<open>y.at(i)\<close> is
  guarded by \<^verbatim>\<open>i < y.size()\<close> and cannot throw.
\<close>

definition M_body :: "(real \<Rightarrow> real) \<Rightarrow> Segment \<Rightarrow> real \<Rightarrow> real" where
  "M_body f s M =
     (let y_begin = seg_begin s;
          y_end = seg_end s;
          zDif = f y_end - f y_begin;
          yDif = y_end - y_begin;
          currentMax = \<bar>zDif / yDif\<bar>
      in if currentMax > M then currentMax else M)"

function M_loop :: "(real \<Rightarrow> real) \<Rightarrow> Segment list \<Rightarrow> nat \<Rightarrow> real \<Rightarrow> real" where
  "M_loop f y i M = (if i < length y then M_loop f y (Suc i) (M_body f (y ! i) M) else M)"
  by pat_completeness auto
termination
  by (relation "measure (\<lambda>(f, y, i, M). length y - i)") auto

definition Calculate_M_seq :: "(real \<Rightarrow> real) \<Rightarrow> Segment list \<Rightarrow> real" where
  "Calculate_M_seq f y = M_loop f y 0 0"

subsection \<open>The correction term\<close>


subsection \<open>The characteristic selector, sequential\<close>

definition R_body ::
  "(real \<Rightarrow> real) \<Rightarrow> real \<Rightarrow> Segment \<Rightarrow> nat \<Rightarrow> real \<times> int \<Rightarrow> real \<times> int" where
  "R_body f m s i maxR_Index =
     (let y_begin = seg_begin s;
          y_end = seg_end s;
          yDif = y_end - y_begin;
          zDif = f y_end - f y_begin;
          zSum = f y_end + f y_begin;
          R = m * yDif + zDif * zDif / (m * yDif) - 2 * zSum
      in if R > fst maxR_Index then (R, int i) else maxR_Index)"

function R_loop ::
  "(real \<Rightarrow> real) \<Rightarrow> Segment list \<Rightarrow> real \<Rightarrow> nat \<Rightarrow> real \<times> int \<Rightarrow> real \<times> int" where
  "R_loop f y m i maxR_Index =
     (if i < length y then R_loop f y m (Suc i) (R_body f m (y ! i) i maxR_Index)
      else maxR_Index)"
  by pat_completeness auto
termination
  by (relation "measure (\<lambda>(f, y, m, i, maxR_Index). length y - i)") auto

definition CalculateIndexOfMaxR_seq ::
  "(real \<Rightarrow> real) \<Rightarrow> Segment list \<Rightarrow> real \<Rightarrow> real \<times> int" where
  "CalculateIndexOfMaxR_seq f y m = R_loop f y m 0 (- DBL_MAX, - 1)"

subsection \<open>Message passing\<close>

text \<open>
  The coordinator is rank 0. A send of \<open>count\<close> segments starting at \<^verbatim>\<open>&y.at(first)\<close>
  throws when \<open>first\<close> is no index of \<open>y\<close> and reads past the end when the block is
  longer than what is left; otherwise the receiver's \<^verbatim>\<open>localY\<close> is that block. Every
  rank builds the same \<open>WorkSplitter\<close> from the same two numbers, so a rank expects a
  message exactly when the coordinator sends it one; a rank with no work keeps an empty
  \<^verbatim>\<open>localY\<close>.
\<close>

definition send_block :: "Segment list \<Rightarrow> nat \<Rightarrow> nat \<Rightarrow> error + Segment list" where
  "send_block y first count =
     (if length y \<le> first then Inl OutOfRange
      else if length y < first + count then Inl BufferOverrun
      else Inr (take count (drop first y)))"

text \<open>\<^verbatim>\<open>std::vector<Segment>(y.begin(), y.begin() + workForThisProc)\<close>.\<close>

definition own_block :: "Segment list \<Rightarrow> nat \<Rightarrow> error + Segment list" where
  "own_block y workForThisProc =
     (if length y < workForThisProc then Inl BufferOverrun else Inr (take workForThisProc y))"

subsection \<open>The Lipschitz estimate, distributed\<close>

text \<open>
  The coordinator's sending loop of \<^verbatim>\<open>Calculate_M<Parallel>\<close>; the value lists the
  \<^verbatim>\<open>localY\<close> of the ranks \<open>procNum\<close>, \<open>procNum + 1\<close>, \<dots>
\<close>

function scatter_M ::
  "Segment list \<Rightarrow> nat list \<Rightarrow> nat \<Rightarrow> nat \<Rightarrow> error + Segment list list" where
  "scatter_M y workSplitter procCount procNum =
     (if procNum < procCount then
        (case GetPartWork workSplitter procNum of
           Inl e \<Rightarrow> Inl e
         | Inr workForProc \<Rightarrow>
             (case (if workForProc \<noteq> 0 then
                      (case GetPrevPartWork workSplitter procNum of
                         Inl e \<Rightarrow> Inl e
                       | Inr workForPrevProc \<Rightarrow> send_block y workForPrevProc workForProc)
                    else Inr []) of
                Inl e \<Rightarrow> Inl e
              | Inr localY \<Rightarrow>
                  (case scatter_M y workSplitter procCount (Suc procNum) of
                     Inl e \<Rightarrow> Inl e
                   | Inr others \<Rightarrow> Inr (localY # others))))
      else Inr [])"
  by pat_completeness auto
termination
  by (relation "measure (\<lambda>(y, workSplitter, procCount, procNum). procCount - procNum)") auto

text \<open>\<^verbatim>\<open>MPI_Reduce\<close> with \<^verbatim>\<open>MPI_MAX\<close> over one value per rank, rank 0 first.\<close>

fun reduce_max :: "real list \<Rightarrow> error + real" where
  "reduce_max [] = Inl IndexOutOfBounds"
| "reduce_max (x # xs) = Inr (foldl max x xs)"

definition Calculate_M_par :: "(real \<Rightarrow> real) \<Rightarrow> Segment list \<Rightarrow> nat \<Rightarrow> error + real" where
  "Calculate_M_par f y procCount =
     (case WorkSplitter (length y) procCount of
        Inl e \<Rightarrow> Inl e
      | Inr workSplitter \<Rightarrow>
          (case GetPartWork workSplitter 0 of
             Inl e \<Rightarrow> Inl e
           | Inr workForThisProc \<Rightarrow>
               (case scatter_M y workSplitter procCount 1 of
                  Inl e \<Rightarrow> Inl e
                | Inr others \<Rightarrow>
                    (case own_block y workForThisProc of
                       Inl e \<Rightarrow> Inl e
                     | Inr localY \<Rightarrow>
                         reduce_max (map (Calculate_M_seq f) (localY # others))))))"

subsection \<open>The characteristic selector, distributed\<close>

text \<open>The coordinator's sending loop of \<^verbatim>\<open>CalculateIndexOfMaxR<Parallel>\<close>.\<close>

function scatter_R ::
  "Segment list \<Rightarrow> nat list \<Rightarrow> nat \<Rightarrow> nat \<Rightarrow> nat \<Rightarrow> error + Segment list list" where
  "scatter_R y workSplitter procCount procNum distributedWork =
     (if procNum < procCount then
        (case GetPartWork workSplitter procNum of
           Inl e \<Rightarrow> Inl e
         | Inr workForProc \<Rightarrow>
             (case (if workForProc \<noteq> 0 then send_block y distributedWork workForProc
                    else Inr []) of
                Inl e \<Rightarrow> Inl e
              | Inr localY \<Rightarrow>
                  (case scatter_R y workSplitter procCount (Suc procNum)
                          (distributedWork + workForProc) of
                     Inl e \<Rightarrow> Inl e
                   | Inr others \<Rightarrow> Inr (localY # others))))
      else Inr [])"
  by pat_completeness auto
termination
  by (relation "measure (\<lambda>(y, workSplitter, procCount, procNum, distributedWork).
        procCount - procNum)") auto

text \<open>
  The coordinator's receiving loop: the slot of a rank with work is overwritten by that
  rank's local pair; \<open>others\<close> lists the \<^verbatim>\<open>localY\<close> of the ranks from \<open>procNum\<close> on,
  and a rank that is not there sends nothing.
\<close>

function gather_R ::
  "(real \<Rightarrow> real) \<Rightarrow> real \<Rightarrow> nat list \<Rightarrow> nat \<Rightarrow> nat \<Rightarrow> Segment list list \<Rightarrow>
   (real \<times> int) list \<Rightarrow> error + (real \<times> int) list" where
  "gather_R f m workSplitter procCount procNum others results =
     (if procNum < procCount then
        (case GetPartWork workSplitter procNum of
           Inl e \<Rightarrow> Inl e
         | Inr workForProc \<Rightarrow>
             (case others of
                [] \<Rightarrow> Inl MissingMessage
              | localY # rest \<Rightarrow>
                  (if workForProc \<noteq> 0 then
                     (if length results \<le> procNum then Inl OutOfRange
                      else gather_R f m workSplitter procCount (Suc procNum) rest
                             (results[procNum := CalculateIndexOfMaxR_seq f localY m]))
                   else gather_R f m workSplitter procCount (Suc procNum) rest results)))
      else Inr results)"
  by pat_completeness auto
termination
  by (relation "measure (\<lambda>(f, m, workSplitter, procCount, procNum, others, results).
        procCount - procNum)") auto

text \<open>
  \<^verbatim>\<open>std::max_element\<close> with the comparison \<^verbatim>\<open>a.first < b.first\<close>, as an index: the first
  of the largest elements, and the size (the end iterator) for an empty range.
\<close>

function max_element_loop :: "(real \<times> int) list \<Rightarrow> nat \<Rightarrow> nat \<Rightarrow> nat" where
  "max_element_loop results largest first =
     (if first < length results then
        max_element_loop results
          (if fst (results ! largest) < fst (results ! first) then first else largest)
          (Suc first)
      else largest)"
  by pat_completeness auto
termination
  by (relation "measure (\<lambda>(results, largest, first). length results - first)") auto

definition max_element :: "(real \<times> int) list \<Rightarrow> nat" where
  "max_element results = (if results = [] then 0 else max_element_loop results 0 1)"

definition CalculateIndexOfMaxR_par ::
  "(real \<Rightarrow> real) \<Rightarrow> Segment list \<Rightarrow> real \<Rightarrow> nat \<Rightarrow> error + real \<times> int" where
  "CalculateIndexOfMaxR_par f y m procCount =
     (case WorkSplitter (length y) procCount of
        Inl e \<Rightarrow> Inl e
      | Inr workSplitter \<Rightarrow>
          (case GetPartWork workSplitter 0 of
             Inl e \<Rightarrow> Inl e
           | Inr workForThisProc \<Rightarrow>
               (case scatter_R y workSplitter procCount 1 workForThisProc of
                  Inl e \<Rightarrow> Inl e
                | Inr others \<Rightarrow>
                    (case own_block y workForThisProc of
                       Inl e \<Rightarrow> Inl e
                     | Inr localY \<Rightarrow>
                         (let indexOfMaxR = CalculateIndexOfMaxR_seq f localY m;
                              results = replicate procCount (- DBL_MAX, - 1)
                          in if length results \<le> 0 then Inl OutOfRange
                             else
                               (case gather_R f m workSplitter procCount 1 others
                                       (results[0 := indexOfMaxR]) of
                                  Inl e \<Rightarrow> Inl e
                                | Inr results \<Rightarrow>
                                    (let indexOfMaxElement = max_element results
                                     in case vector_at results (int indexOfMaxElement) of
                                          Inl e \<Rightarrow> Inl e
                                        | Inr maxPair \<Rightarrow>
                                            (case GetPrevPartWork workSplitter indexOfMaxElement of
                                               Inl e \<Rightarrow> Inl e
                                             | Inr prevWork \<Rightarrow>
                                                 Inr (fst maxPair, snd maxPair + int prevWork)))))))))"

declare M_loop.simps [simp del]
declare R_loop.simps [simp del]
declare scatter_M.simps [simp del]
declare scatter_R.simps [simp del]
declare gather_R.simps [simp del]
declare max_element_loop.simps [simp del]

subsection \<open>IEEE 754 binary64\<close>

text \<open>
  A \<^verbatim>\<open>double\<close> is a sign with a magnitude, an infinity with a sign, or a not-a-number.
  The sign bit is \<open>True\<close> for negative; both zeros exist. A magnitude is a non-negative
  multiple of \<open>2 powi -1074\<close> with at most 53 significant bits, below \<open>2 ^ 1024\<close>. Operations
  round to nearest, ties to even, do not trap, and are not fused.
\<close>

datatype double = Finite bool real | Infinity bool | NaN

definition valof :: "bool \<Rightarrow> real \<Rightarrow> real" where
  "valof s m = (if s then - m else m)"

text \<open>
  The binary exponent of a magnitude, between \<open>-1022\<close> (also for subnormal numbers) and
  1023, found by counting up.
\<close>

fun exponent_from :: "nat \<Rightarrow> int \<Rightarrow> real \<Rightarrow> int" where
  "exponent_from 0 e m = e"
| "exponent_from (Suc n) e m = (if m < 2 powi (e + 1) then e else exponent_from n (e + 1) m)"

definition exponent :: "real \<Rightarrow> int" where
  "exponent m = exponent_from 2045 (- 1022) m"

text \<open>The nearest integer, the even one of two equally near.\<close>

definition round_even :: "real \<Rightarrow> int" where
  "round_even q =
     (let n = \<lfloor>q\<rfloor>; d = q - of_int n
      in if d < 1 / 2 then n else if 1 / 2 < d then n + 1 else if even n then n else n + 1)"

text \<open>
  Rounding of an exact magnitude: to the nearest multiple of the unit in the last place
  of its exponent; a result that reaches \<open>2 ^ 1024\<close> is infinite.
\<close>

definition round_mag :: "bool \<Rightarrow> real \<Rightarrow> double" where
  "round_mag s m =
     (let u = 2 powi (exponent m - 52);
          r = of_int (round_even (m / u)) * u
      in if 2 powi 1024 \<le> r then Infinity s else Finite s r)"

definition round_real :: "real \<Rightarrow> double" where
  "round_real x = round_mag (x < 0) \<bar>x\<bar>"

fun d_neg :: "double \<Rightarrow> double" where
  "d_neg (Finite s m) = Finite (\<not> s) m"
| "d_neg (Infinity s) = Infinity (\<not> s)"
| "d_neg NaN = NaN"

fun d_abs :: "double \<Rightarrow> double" where
  "d_abs (Finite s m) = Finite False m"
| "d_abs (Infinity s) = Infinity False"
| "d_abs NaN = NaN"

text \<open>An exact sum of zero is \<open>-0\<close> only when both operands are negative.\<close>

fun d_add :: "double \<Rightarrow> double \<Rightarrow> double" where
  "d_add NaN y = NaN"
| "d_add (Finite s m) NaN = NaN"
| "d_add (Infinity s) NaN = NaN"
| "d_add (Infinity s) (Infinity t) = (if s = t then Infinity s else NaN)"
| "d_add (Infinity s) (Finite t n) = Infinity s"
| "d_add (Finite s m) (Infinity t) = Infinity t"
| "d_add (Finite s m) (Finite t n) =
     (let x = valof s m + valof t n
      in if x = 0 then Finite (s \<and> t) 0 else round_real x)"

definition d_sub :: "double \<Rightarrow> double \<Rightarrow> double" where
  "d_sub x y = d_add x (d_neg y)"

fun d_mul :: "double \<Rightarrow> double \<Rightarrow> double" where
  "d_mul NaN y = NaN"
| "d_mul (Finite s m) NaN = NaN"
| "d_mul (Infinity s) NaN = NaN"
| "d_mul (Infinity s) (Infinity t) = Infinity (s \<noteq> t)"
| "d_mul (Infinity s) (Finite t n) = (if n = 0 then NaN else Infinity (s \<noteq> t))"
| "d_mul (Finite s m) (Infinity t) = (if m = 0 then NaN else Infinity (s \<noteq> t))"
| "d_mul (Finite s m) (Finite t n) = round_mag (s \<noteq> t) (m * n)"

fun d_div :: "double \<Rightarrow> double \<Rightarrow> double" where
  "d_div NaN y = NaN"
| "d_div (Finite s m) NaN = NaN"
| "d_div (Infinity s) NaN = NaN"
| "d_div (Infinity s) (Infinity t) = NaN"
| "d_div (Infinity s) (Finite t n) = Infinity (s \<noteq> t)"
| "d_div (Finite s m) (Infinity t) = Finite (s \<noteq> t) 0"
| "d_div (Finite s m) (Finite t n) =
     (if n = 0 then (if m = 0 then NaN else Infinity (s \<noteq> t))
      else round_mag (s \<noteq> t) (m / n))"

text \<open>Comparisons: false whenever an operand is a not-a-number; the zeros are equal.\<close>

fun d_less :: "double \<Rightarrow> double \<Rightarrow> bool" where
  "d_less NaN y = False"
| "d_less (Finite s m) NaN = False"
| "d_less (Infinity s) NaN = False"
| "d_less (Infinity s) (Infinity t) = (s \<and> \<not> t)"
| "d_less (Infinity s) (Finite t n) = s"
| "d_less (Finite s m) (Infinity t) = (\<not> t)"
| "d_less (Finite s m) (Finite t n) = (valof s m < valof t n)"

fun d_eq :: "double \<Rightarrow> double \<Rightarrow> bool" where
  "d_eq (Finite s m) (Finite t n) = (valof s m = valof t n)"
| "d_eq (Infinity s) (Infinity t) = (s = t)"
| "d_eq x y = False"

definition d_le :: "double \<Rightarrow> double \<Rightarrow> bool" where
  "d_le x y = (d_less x y \<or> d_eq x y)"

text \<open>The constants of the program: \<^verbatim>\<open>0\<close>, \<^verbatim>\<open>1\<close>, \<^verbatim>\<open>2\<close> and \<^verbatim>\<open>2.0\<close>, \<^verbatim>\<open>DBL_MAX\<close>.\<close>

definition d_zero :: double where
  "d_zero = Finite False 0"

definition d_one :: double where
  "d_one = Finite False 1"

definition d_two :: double where
  "d_two = Finite False 2"

definition d_DBL_MAX :: double where
  "d_DBL_MAX = Finite False DBL_MAX"

subsection \<open>The sequential sub-computations in binary64\<close>

record Segment_b64 =
  sb_begin :: double
  sb_end :: double

definition M_body_b64 :: "(double \<Rightarrow> double) \<Rightarrow> Segment_b64 \<Rightarrow> double \<Rightarrow> double" where
  "M_body_b64 f s M =
     (let y_begin = sb_begin s;
          y_end = sb_end s;
          zDif = d_sub (f y_end) (f y_begin);
          yDif = d_sub y_end y_begin;
          currentMax = d_abs (d_div zDif yDif)
      in if d_less M currentMax then currentMax else M)"

function M_loop_b64 ::
  "(double \<Rightarrow> double) \<Rightarrow> Segment_b64 list \<Rightarrow> nat \<Rightarrow> double \<Rightarrow> double" where
  "M_loop_b64 f y i M =
     (if i < length y then M_loop_b64 f y (Suc i) (M_body_b64 f (y ! i) M) else M)"
  by pat_completeness auto
termination
  by (relation "measure (\<lambda>(f, y, i, M). length y - i)") auto

definition Calculate_M_b64 :: "(double \<Rightarrow> double) \<Rightarrow> Segment_b64 list \<Rightarrow> double" where
  "Calculate_M_b64 f y = M_loop_b64 f y 0 d_zero"

definition Calculate_m_b64 :: "double \<Rightarrow> double \<Rightarrow> error + double" where
  "Calculate_m_b64 M r =
     (if \<not> d_le d_zero M then Inl AssertionFailed
      else if \<not> d_less d_one r then Inl AssertionFailed
      else Inr (if d_eq M d_zero then d_one else d_mul r M))"

definition R_body_b64 ::
  "(double \<Rightarrow> double) \<Rightarrow> double \<Rightarrow> Segment_b64 \<Rightarrow> nat \<Rightarrow> double \<times> int \<Rightarrow> double \<times> int" where
  "R_body_b64 f m s i maxR_Index =
     (let y_begin = sb_begin s;
          y_end = sb_end s;
          yDif = d_sub y_end y_begin;
          zDif = d_sub (f y_end) (f y_begin);
          zSum = d_add (f y_end) (f y_begin);
          R = d_sub (d_add (d_mul m yDif) (d_div (d_mul zDif zDif) (d_mul m yDif)))
                    (d_mul d_two zSum)
      in if d_less (fst maxR_Index) R then (R, int i) else maxR_Index)"

function R_loop_b64 ::
  "(double \<Rightarrow> double) \<Rightarrow> Segment_b64 list \<Rightarrow> double \<Rightarrow> nat \<Rightarrow> double \<times> int \<Rightarrow> double \<times> int" where
  "R_loop_b64 f y m i maxR_Index =
     (if i < length y then R_loop_b64 f y m (Suc i) (R_body_b64 f m (y ! i) i maxR_Index)
      else maxR_Index)"
  by pat_completeness auto
termination
  by (relation "measure (\<lambda>(f, y, m, i, maxR_Index). length y - i)") auto

definition CalculateIndexOfMaxR_b64 ::
  "(double \<Rightarrow> double) \<Rightarrow> Segment_b64 list \<Rightarrow> double \<Rightarrow> double \<times> int" where
  "CalculateIndexOfMaxR_b64 f y m = R_loop_b64 f y m 0 (d_neg d_DBL_MAX, - 1)"

subsection \<open>The optimization loop\<close>

text \<open>
  \<^verbatim>\<open>GetMin<Sequential>\<close>. One pass of the loop body either returns a value or leaves a new
  collection.
\<close>

datatype pass = Return double | Continue "Segment_b64 list"

definition maxIterationCount :: nat where
  "maxIterationCount = 100000"

definition GetMin_body ::
  "(double \<Rightarrow> double) \<Rightarrow> double \<Rightarrow> Segment_b64 list \<Rightarrow> error + pass" where
  "GetMin_body f epsilon y =
     (let r = d_two;
          M = Calculate_M_b64 f y
      in case Calculate_m_b64 M r of
           Inl e \<Rightarrow> Inl e
         | Inr m \<Rightarrow>
             (let indexOfMaxR = CalculateIndexOfMaxR_b64 f y m
              in case vector_at y (snd indexOfMaxR) of
                   Inl e \<Rightarrow> Inl e
                 | Inr currentSegment \<Rightarrow>
                     (let y_begin = sb_begin currentSegment;
                          y_end = sb_end currentSegment
                      in if d_less (d_sub y_end y_begin) epsilon then Inr (Return (f y_end))
                         else
                           (let yn = d_add (d_add y_begin (d_div (d_sub y_end y_begin) d_two))
                                       (d_div (d_sub (f y_end) (f y_begin)) (d_mul d_two m));
                                y' = y @ [\<lparr>sb_begin = y_begin, sb_end = yn\<rparr>]
                            in Inr (Continue
                                 (y'[nat (snd indexOfMaxR) :=
                                       (y' ! nat (snd indexOfMaxR))\<lparr>sb_begin := yn\<rparr>]))))))"

function GetMin_loop ::
  "(double \<Rightarrow> double) \<Rightarrow> double \<Rightarrow> Segment_b64 list \<Rightarrow> nat \<Rightarrow> error + double" where
  "GetMin_loop f epsilon y iterationIndex =
     (if iterationIndex < maxIterationCount then
        (case GetMin_body f epsilon y of
           Inl e \<Rightarrow> Inl e
         | Inr (Return v) \<Rightarrow> Inr v
         | Inr (Continue y') \<Rightarrow> GetMin_loop f epsilon y' (Suc iterationIndex))
      else Inr NaN)"
  by pat_completeness auto
termination
  by (relation "measure (\<lambda>(f, epsilon, y, iterationIndex).
        maxIterationCount - iterationIndex)") auto

definition GetMin :: "(double \<Rightarrow> double) \<Rightarrow> double \<Rightarrow> double \<Rightarrow> double \<Rightarrow> error + double" where
  "GetMin f a b epsilon = GetMin_loop f epsilon [\<lparr>sb_begin = a, sb_end = b\<rparr>] 0"

definition GetMinSequential ::
  "(double \<Rightarrow> double) \<Rightarrow> double \<Rightarrow> double \<Rightarrow> double \<Rightarrow> error + double" where
  "GetMinSequential f a b epsilon = GetMin f a b epsilon"

declare M_loop_b64.simps [simp del]
declare R_loop_b64.simps [simp del]
declare GetMin_loop.simps [simp del]

subsection \<open>List forms of the sequential loops\<close>

text \<open>
  The selector's loop from position \<open>i\<close> on, as a recursion over the segments still to be
  read; \<open>R_loop_scan\<close> below proves it equal to \<open>R_loop\<close>.
\<close>

fun R_scan ::
  "(real \<Rightarrow> real) \<Rightarrow> real \<Rightarrow> real \<times> int \<Rightarrow> nat \<Rightarrow> Segment list \<Rightarrow> real \<times> int" where
  "R_scan f m maxR_Index i [] = maxR_Index"
| "R_scan f m maxR_Index i (s # ss) = R_scan f m (R_body f m s i maxR_Index) (Suc i) ss"

text \<open>The quotient \<^verbatim>\<open>std::abs(zDif / yDif)\<close> of one segment.\<close>

definition slope :: "(real \<Rightarrow> real) \<Rightarrow> Segment \<Rightarrow> real" where
  "slope f s = \<bar>(f (seg_end s) - f (seg_begin s)) / (seg_end s - seg_begin s)\<bar>"


subsection \<open>Notions used to describe the distributed computations\<close>

text \<open>The block of \<open>y\<close> that belongs to rank \<open>p\<close> under a distribution.\<close>

definition slice :: "nat list \<Rightarrow> Segment list \<Rightarrow> nat \<Rightarrow> Segment list" where
  "slice workSplitter y p =
     take (workSplitter ! p) (drop (sum_list (take p workSplitter)) y)"




section \<open>Properties of the work splitter\<close>

lemma fill_loop_result:
  "currentWorker \<le> work \<Longrightarrow> work \<le> length wd \<Longrightarrow>
   fill_loop work currentWorker wd =
     Inr (take currentWorker wd @ replicate (work - currentWorker) 1 @ drop work wd)"
proof (induction work currentWorker wd rule: fill_loop.induct)
  case (1 work currentWorker wd)
  show ?case
  proof (cases "currentWorker < work")
    case True
    then have lt: "currentWorker < length wd" using "1.prems" by simp
    have ih: "fill_loop work (Suc currentWorker) (wd[currentWorker := 1]) =
        Inr (take (Suc currentWorker) (wd[currentWorker := 1]) @
             replicate (work - Suc currentWorker) 1 @ drop work (wd[currentWorker := 1]))"
      using "1.IH" True lt "1.prems" by simp
    have step: "fill_loop work currentWorker wd = fill_loop work (Suc currentWorker) (wd[currentWorker := 1])"
      using True lt by (subst fill_loop.simps) simp
    have a: "take (Suc currentWorker) (wd[currentWorker := 1]) = take currentWorker wd @ [1]"
      using lt by (simp add: take_Suc_conv_app_nth)
    have b: "drop work (wd[currentWorker := 1]) = drop work wd"
      using True by simp
    have c: "replicate (work - currentWorker) (1::nat) = 1 # replicate (work - Suc currentWorker) 1"
      using True by (simp add: Suc_diff_Suc flip: replicate_Suc)
    show ?thesis
      unfolding step ih a b c by simp
  next
    case False
    then have "currentWorker = work" using "1.prems" by simp
    then show ?thesis using "1.prems" by (subst fill_loop.simps) simp
  qed
qed

lemma div_mod_step:
  fixes w k :: nat
  assumes "2 \<le> k" "k \<le> w"
  shows "(w mod k < k - 1 \<longrightarrow> (w - w div k) div (k - 1) = w div k \<and> (w - w div k) mod (k - 1) = w mod k)
       \<and> (w mod k = k - 1 \<longrightarrow> (w - w div k) div (k - 1) = w div k + 1 \<and> (w - w div k) mod (k - 1) = 0)"
proof -
  define q r j where "q = w div k" and "r = w mod k" and "j = k - 1"
  have k: "k = Suc j" using assms by (simp add: j_def)
  have w: "w = q * k + r" by (simp add: q_def r_def)
  have e: "w - q = q * j + r" using w by (simp add: k)
  have small: "r < j \<Longrightarrow> (q * j + r) div j = q \<and> (q * j + r) mod j = r"
    by simp
  have full: "r = j \<Longrightarrow> (q * j + r) div j = q + 1 \<and> (q * j + r) mod j = 0"
    using assms k by simp
  show ?thesis
    unfolding q_def[symmetric] r_def[symmetric] j_def[symmetric] e
    using small full by simp
qed

lemma spread_step:
  assumes "1 \<le> k" "k \<le> w"
  shows "spread w k = (w div k) # (if k = 1 then [] else spread (w - w div k) (k - 1))"
proof (cases "k = 1")
  case True
  then show ?thesis by (simp add: spread_def)
next
  case False
  then have k2: "2 \<le> k" using assms by simp
  note dm = div_mod_step[OF k2 assms(2)]
  have rlt: "w mod k < k" using assms by simp
  show ?thesis
  proof (cases "w mod k < k - 1")
    case True
    then have "(w - w div k) div (k - 1) = w div k" "(w - w div k) mod (k - 1) = w mod k"
      using dm by simp_all
    moreover have "k - w mod k = Suc (k - 1 - w mod k)" using True by simp
    ultimately show ?thesis using False by (simp add: spread_def)
  next
    case False
    then have r: "w mod k = k - 1" using rlt by simp
    then have "(w - w div k) div (k - 1) = w div k + 1" "(w - w div k) mod (k - 1) = 0"
      using dm by simp_all
    moreover have "k - w mod k = 1" using r k2 by simp
    ultimately show ?thesis using \<open>k \<noteq> 1\<close> r k2 by (simp add: spread_def)
  qed
qed

lemma sum_list_spread: "1 \<le> k \<Longrightarrow> sum_list (spread w k) = w"
proof -
  assume "1 \<le> k"
  then have "w mod k \<le> k" by (simp add: less_imp_le)
  have "sum_list (spread w k) = (k - w mod k) * (w div k) + w mod k * (w div k + 1)"
    by (simp add: spread_def sum_list_replicate)
  also have "\<dots> = k * (w div k) + w mod k"
    using \<open>w mod k \<le> k\<close> by (simp add: algebra_simps diff_mult_distrib)
  finally show ?thesis by simp
qed

lemma split_loop_result:
  "1 \<le> workerCount \<Longrightarrow> workerCount \<le> work \<Longrightarrow> currentWorker + workerCount \<le> length wd \<Longrightarrow>
   split_loop work workerCount currentWorker wd =
     Inr (currentWorker + workerCount,
          take currentWorker wd @ spread work workerCount @ drop (currentWorker + workerCount) wd)"
proof (induction work workerCount currentWorker wd rule: split_loop.induct)
  case (1 work workerCount currentWorker wd)
  let ?q = "work div workerCount"
  have w0: "work \<noteq> 0" and k0: "workerCount \<noteq> 0" and lt: "currentWorker < length wd"
    using "1.prems" by simp_all
  have q1: "1 \<le> ?q" using "1.prems" by (simp add: div_greater_zero_iff Suc_le_eq)
  have unfold: "split_loop work workerCount currentWorker wd =
      split_loop (work - ?q) (workerCount - 1) (Suc currentWorker) (wd[currentWorker := ?q])"
    using w0 k0 lt by (subst split_loop.simps) simp
  have tk: "take (Suc currentWorker) (wd[currentWorker := ?q]) = take currentWorker wd @ [?q]"
    using lt by (simp add: take_Suc_conv_app_nth)
  show ?case
  proof (cases "workerCount = 1")
    case True
    then have "work - ?q = 0" by simp
    then have "split_loop (work - ?q) (workerCount - 1) (Suc currentWorker) (wd[currentWorker := ?q])
        = Inr (Suc currentWorker, wd[currentWorker := ?q])"
      by (subst split_loop.simps) simp
    moreover have "wd[currentWorker := ?q] = take currentWorker wd @ [?q] @ drop (Suc currentWorker) wd"
      using lt by (simp add: upd_conv_take_nth_drop)
    ultimately show ?thesis
      using unfold True spread_step[OF "1.prems"(1,2)] by simp
  next
    case False
    then have k2: "2 \<le> workerCount" using "1.prems" by simp
    have le': "workerCount - 1 \<le> work - ?q"
    proof -
      obtain j where j: "workerCount = Suc j" using k0 by (cases workerCount) simp_all
      obtain n where n: "?q = Suc n" using q1 by (cases ?q) simp_all
      have "work = ?q * workerCount + work mod workerCount" by simp
      then have "work - ?q = ?q * j + work mod workerCount"
        unfolding j by simp
      also have "\<dots> = j + (n * j + work mod workerCount)"
        unfolding n by simp
      finally show ?thesis using j by simp
    qed
    have ih: "split_loop (work - ?q) (workerCount - 1) (Suc currentWorker) (wd[currentWorker := ?q]) =
       Inr (Suc currentWorker + (workerCount - 1),
            take (Suc currentWorker) (wd[currentWorker := ?q]) @ spread (work - ?q) (workerCount - 1) @
            drop (Suc currentWorker + (workerCount - 1)) (wd[currentWorker := ?q]))"
      using "1.IH"[OF w0 k0] lt k2 le' "1.prems" by simp
    have dr: "drop (Suc currentWorker + (workerCount - 1)) (wd[currentWorker := ?q])
        = drop (currentWorker + workerCount) wd"
      using k2 by simp
    show ?thesis
      using unfold ih tk dr False k2 spread_step[OF "1.prems"(1,2)] by simp
  qed
qed

lemma WorkSplitter_small:
  "work \<le> workerCount \<Longrightarrow>
   WorkSplitter work workerCount = Inr (replicate work 1 @ replicate (workerCount - work) 0)"
  using fill_loop_result[of 0 work "replicate workerCount 0"]
  by (simp add: WorkSplitter_def)

lemma WorkSplitter_large:
  "1 \<le> workerCount \<Longrightarrow> workerCount < work \<Longrightarrow>
   WorkSplitter work workerCount = Inr (spread work workerCount)"
  using split_loop_result[of workerCount work 0 "replicate workerCount 0"]
  by (simp add: WorkSplitter_def)

lemma length_spread: "1 \<le> k \<Longrightarrow> length (spread w k) = k"
  by (simp add: spread_def less_imp_le)

lemma nth_spread:
  "i < k \<Longrightarrow> spread w k ! i = (if i < k - w mod k then w div k else w div k + 1)"
  by (simp add: spread_def nth_append)

lemma prev_loop_result:
  "i \<le> workerNumber \<Longrightarrow> workerNumber \<le> length wd \<Longrightarrow>
   prev_loop wd workerNumber i work = Inr (work + sum_list (take (workerNumber - i) (drop i wd)))"
proof (induction wd workerNumber i work rule: prev_loop.induct)
  case (1 wd workerNumber i work)
  show ?case
  proof (cases "i < workerNumber")
    case True
    then have lt: "i < length wd" using "1.prems" by simp
    have d: "workerNumber - i = Suc (workerNumber - Suc i)" using True by simp
    have "drop i wd = wd ! i # drop (Suc i) wd" using lt by (rule Cons_nth_drop_Suc[symmetric])
    then have "take (workerNumber - i) (drop i wd) = wd ! i # take (workerNumber - Suc i) (drop (Suc i) wd)"
      unfolding d by simp
    moreover have "prev_loop wd workerNumber i work = prev_loop wd workerNumber (Suc i) (work + wd ! i)"
      using True lt by (subst prev_loop.simps) simp
    ultimately show ?thesis using "1.IH"[OF True lt] True lt "1.prems" by simp
  next
    case False
    then show ?thesis using "1.prems" by (subst prev_loop.simps) simp
  qed
qed

lemma GetPrevPartWork_result:
  "workerNumber \<le> length wd \<Longrightarrow> GetPrevPartWork wd workerNumber = Inr (sum_list (take workerNumber wd))"
  using prev_loop_result[of 0 workerNumber wd 0] by (simp add: GetPrevPartWork_def)

lemma split_passes_inv:
  "1 \<le> workerCount \<Longrightarrow> workerCount \<le> work \<Longrightarrow>
   length (split_passes work workerCount currentWorker) = workerCount \<and>
   (\<forall>(w, k, c) \<in> set (split_passes work workerCount currentWorker).
      1 \<le> k \<and> k \<le> w \<and> currentWorker \<le> c \<and> c < currentWorker + workerCount)"
proof (induction work workerCount currentWorker rule: split_passes.induct)
  case (1 work workerCount currentWorker)
  let ?q = "work div workerCount"
  have w0: "work \<noteq> 0" and k0: "workerCount \<noteq> 0" using "1.prems" by simp_all
  have unfold: "split_passes work workerCount currentWorker =
     (work, workerCount, currentWorker) # split_passes (work - ?q) (workerCount - 1) (Suc currentWorker)"
    using w0 k0 by (subst split_passes.simps) simp
  show ?case
  proof (cases "workerCount = 1")
    case True
    then have "split_passes (work - ?q) (workerCount - 1) (Suc currentWorker) = []"
      by (subst split_passes.simps) simp
    then show ?thesis using unfold True "1.prems" by simp
  next
    case False
    obtain j where j: "workerCount = Suc j" using k0 by (cases workerCount) simp_all
    have q1: "1 \<le> ?q" using "1.prems" by (simp add: div_greater_zero_iff Suc_le_eq)
    obtain n where n: "?q = Suc n" using q1 by (cases ?q) simp_all
    have "work = ?q * workerCount + work mod workerCount" by simp
    then have "work - ?q = ?q * j + work mod workerCount" unfolding j by simp
    also have "\<dots> = j + (n * j + work mod workerCount)" unfolding n by simp
    finally have le': "workerCount - 1 \<le> work - ?q" using j by simp
    have "1 \<le> workerCount - 1" using False k0 by simp
    from "1.IH"[OF _ this le'] w0 k0
    have ih: "length (split_passes (work - ?q) (workerCount - 1) (Suc currentWorker)) = workerCount - 1"
      "\<forall>(w, k, c) \<in> set (split_passes (work - ?q) (workerCount - 1) (Suc currentWorker)).
          1 \<le> k \<and> k \<le> w \<and> Suc currentWorker \<le> c \<and> c < Suc currentWorker + (workerCount - 1)"
      by simp_all
    show ?thesis
      unfolding unfold using ih "1.prems" k0 by auto
  qed
qed

lemma split_loop_passes:
  "split_loop work workerCount currentWorker wd = Inr (n, wd') \<Longrightarrow>
   n = currentWorker + length (split_passes work workerCount currentWorker)"
proof (induction work workerCount currentWorker wd rule: split_loop.induct)
  case (1 work workerCount currentWorker wd)
  show ?case
  proof (cases "work = 0")
    case True
    have "split_loop work workerCount currentWorker wd = Inr (currentWorker, wd)"
      using True by (subst split_loop.simps) simp
    moreover have "split_passes work workerCount currentWorker = []"
      using True by (subst split_passes.simps) simp
    ultimately show ?thesis using "1.prems" by simp
  next
    case False
    note eq = "1.prems"[unfolded split_loop.simps[of work workerCount currentWorker wd]]
    have k0: "workerCount \<noteq> 0" and lt: "\<not> length wd \<le> currentWorker"
      using eq False by (auto split: if_splits)
    have "split_loop (work - work div workerCount) (workerCount - 1) (Suc currentWorker)
             (wd[currentWorker := work div workerCount]) = Inr (n, wd')"
      using eq False k0 lt by simp
    from "1.IH"[OF False k0 lt this] show ?thesis
      using False k0 by (subst split_passes.simps) simp
  qed
qed

lemma ceiling_div_nat:
  assumes "0 < k"
  shows "nat \<lceil>real u / real k\<rceil> = (if u mod k = 0 then u div k else u div k + 1)"
proof -
  have u: "real u = real (u div k) * real k + real (u mod k)"
    by (metis of_nat_add of_nat_mult div_mult_mod_eq)
  have kr: "0 < real k" using assms by simp
  have q: "real u / real k = real (u div k) + real (u mod k) / real k"
    using kr by (subst u) (simp add: add_divide_distrib)
  show ?thesis
  proof (cases "u mod k = 0")
    case True
    then show ?thesis using q by simp
  next
    case False
    have "u mod k < k" using assms by simp
    then have "real (u mod k) / real k < 1" using kr by simp
    moreover have "0 < real (u mod k) / real k" using False kr by simp
    ultimately have "\<lceil>real u / real k\<rceil> = int (u div k) + 1"
      unfolding q by (intro ceiling_unique) simp_all
    then show ?thesis using False by simp
  qed
qed

lemma split_loop_writes:
  "split_loop work workerCount currentWorker wd = Inr (n, wd') \<Longrightarrow>
   length wd' = length wd \<and> (\<forall>i<currentWorker. wd' ! i = wd ! i) \<and>
   (\<forall>(w, k, c) \<in> set (split_passes work workerCount currentWorker).
      c < length wd' \<and> wd' ! c = w div k)"
proof (induction work workerCount currentWorker wd rule: split_loop.induct)
  case (1 work workerCount currentWorker wd)
  show ?case
  proof (cases "work = 0")
    case True
    have "split_loop work workerCount currentWorker wd = Inr (currentWorker, wd)"
      using True by (subst split_loop.simps) simp
    moreover have "split_passes work workerCount currentWorker = []"
      using True by (subst split_passes.simps) simp
    ultimately show ?thesis using "1.prems" by simp
  next
    case False
    let ?q = "work div workerCount"
    note eq = "1.prems"[unfolded split_loop.simps[of work workerCount currentWorker wd]]
    have k0: "workerCount \<noteq> 0" and lt: "\<not> length wd \<le> currentWorker"
      using eq False by (auto split: if_splits)
    have r: "split_loop (work - ?q) (workerCount - 1) (Suc currentWorker) (wd[currentWorker := ?q])
               = Inr (n, wd')"
      using eq False k0 lt by simp
    note ih = "1.IH"[OF False k0 lt r]
    have len: "length wd' = length wd" using ih by simp
    have keep: "\<forall>i<Suc currentWorker. wd' ! i = wd[currentWorker := ?q] ! i"
      using ih by (rule conjunct1[OF conjunct2])
    have later: "\<forall>(w, k, c) \<in> set (split_passes (work - ?q) (workerCount - 1) (Suc currentWorker)).
                    c < length wd' \<and> wd' ! c = w div k"
      using ih by (rule conjunct2[OF conjunct2])
    have here: "wd' ! currentWorker = ?q" using keep lt by simp
    have before: "\<forall>i<currentWorker. wd' ! i = wd ! i" using keep by simp
    have p: "split_passes work workerCount currentWorker =
       (work, workerCount, currentWorker) #
         split_passes (work - ?q) (workerCount - 1) (Suc currentWorker)"
      using False k0 by (subst split_passes.simps) simp
    show ?thesis unfolding p using len before here later lt by simp
  qed
qed

section \<open>Claims about the work splitter\<close>

lemma WorkSplitter_entries:
  assumes "1 \<le> workerCount"
  shows "\<exists>wd. WorkSplitter unitCount workerCount = Inr wd \<and> length wd = workerCount \<and>
          sum_list wd = unitCount \<and>
          (\<forall>i<workerCount. unitCount div workerCount \<le> wd ! i \<and> wd ! i \<le> unitCount div workerCount + 1)"
proof (cases "unitCount \<le> workerCount")
  case True
  let ?wd = "replicate unitCount (1::nat) @ replicate (workerCount - unitCount) 0"
  have "unitCount div workerCount = (if unitCount = workerCount then 1 else 0)"
    using True assms by simp
  then have "\<forall>i<workerCount. unitCount div workerCount \<le> ?wd ! i \<and> ?wd ! i \<le> unitCount div workerCount + 1"
    by (simp add: nth_append)
  moreover have "sum_list ?wd = unitCount" by (simp add: sum_list_replicate)
  moreover have "length ?wd = workerCount" using True by simp
  ultimately show ?thesis using WorkSplitter_small[OF True] by blast
next
  case False
  then have lt: "workerCount < unitCount" by simp
  have "\<forall>i<workerCount. unitCount div workerCount \<le> spread unitCount workerCount ! i \<and>
          spread unitCount workerCount ! i \<le> unitCount div workerCount + 1"
    by (simp add: nth_spread)
  then show ?thesis
    using WorkSplitter_large[OF assms lt] length_spread[OF assms] sum_list_spread[OF assms] by blast
qed

lemma within_one:
  fixes e u k :: nat
  assumes "0 < k" "u div k \<le> e" "e \<le> u div k + 1"
  shows "\<bar>real e - real u / real k\<bar> \<le> 1"
proof -
  have u: "real u = real (u div k) * real k + real (u mod k)"
    by (metis of_nat_add of_nat_mult div_mult_mod_eq)
  have kr: "0 < real k" using assms by simp
  have q: "real u / real k = real (u div k) + real (u mod k) / real k"
    using kr by (subst u) (simp add: add_divide_distrib)
  have "u mod k < k" using assms by simp
  then have "real (u mod k) / real k < 1" using kr by simp
  moreover have "0 \<le> real (u mod k) / real k" by simp
  moreover have "e = u div k \<or> e = u div k + 1" using assms by linarith
  ultimately show ?thesis unfolding q by auto
qed

lemma replicate_3_0: "replicate 3 (0::nat) = [0, 0, 0]"
  by (simp add: numeral_3_eq_3)

lemma WorkSplitter_7_3: "WorkSplitter 7 3 = Inr [2, 2, 3]"
  by (simp add: WorkSplitter_def split_loop.simps replicate_3_0)

text \<open>
  Claim C8. For a positive unit count and a positive worker count the constructor
  succeeds, \<open>GetPartWork\<close> reads every worker's entry, the entries sum to the unit
  count, \<open>GetPrevPartWork workerCount\<close> is the unit count, and every entry lies between
  the integer quotient and one more, hence within one unit of the exact quotient.
\<close>

theorem WorkSplitter_sums:
  assumes "0 < unitCount" and "0 < workerCount"
  shows "\<exists>wd. WorkSplitter unitCount workerCount = Inr wd \<and> length wd = workerCount \<and>
           map (GetPartWork wd) [0..<workerCount] = map Inr wd \<and>
           sum_list wd = unitCount \<and>
           GetPrevPartWork wd workerCount = Inr unitCount \<and>
           (\<forall>i<workerCount. unitCount div workerCount \<le> wd ! i \<and> wd ! i \<le> unitCount div workerCount + 1 \<and>
                \<bar>real (wd ! i) - real unitCount / real workerCount\<bar> \<le> 1)"
proof -
  from assms(2) have "1 \<le> workerCount" by simp
  from WorkSplitter_entries[OF this, of unitCount] obtain wd where
    wd: "WorkSplitter unitCount workerCount = Inr wd" and len: "length wd = workerCount"
    and s: "sum_list wd = unitCount"
    and e: "\<forall>i<workerCount. unitCount div workerCount \<le> wd ! i \<and> wd ! i \<le> unitCount div workerCount + 1"
    by blast
  have "map (GetPartWork wd) [0..<workerCount] = map Inr wd"
    using len by (intro nth_equalityI) (simp_all add: GetPartWork_def)
  moreover have "GetPrevPartWork wd workerCount = Inr unitCount"
    using GetPrevPartWork_result[of workerCount wd] len s by simp
  moreover have "\<forall>i<workerCount. \<bar>real (wd ! i) - real unitCount / real workerCount\<bar> \<le> 1"
    using e within_one[OF assms(2)] by blast
  ultimately show ?thesis using wd len s e by blast
qed

text \<open>
  Claim C8 at seven units for three workers.
\<close>

theorem WorkSplitter_sums_witness:
  "(0::nat) < 7 \<and> (0::nat) < 3 \<and> WorkSplitter 7 3 = Inr [2, 2, 3] \<and>
   sum_list [2, 2, 3::nat] = 7 \<and> GetPrevPartWork [2, 2, 3] 3 = Inr 7"
proof -
  note w = WorkSplitter_7_3
  from WorkSplitter_sums[of 7 3] w show ?thesis by simp
qed

text \<open>
  Claim C9. With at least one worker the constructor returns a distribution of
  \<open>workerCount\<close> entries for every unit count. In the second branch the loop makes
  \<open>length (split_passes \<dots>)\<close> passes, at most \<open>workerCount\<close>; in each pass the quotient
  \<open>work div workerCount\<close> is at least one, so the remaining work strictly decreases,
  and the index written is below \<open>workerCount\<close>; the distribution returned holds at
  that index the quotient of that pass.
\<close>

theorem WorkSplitter_terminates:
  assumes "1 \<le> workerCount"
  shows "\<exists>wd. WorkSplitter unitCount workerCount = Inr wd \<and> length wd = workerCount \<and>
     (workerCount < unitCount \<longrightarrow>
        split_loop unitCount workerCount 0 (replicate workerCount 0) =
          Inr (length (split_passes unitCount workerCount 0), wd) \<and>
        length (split_passes unitCount workerCount 0) \<le> workerCount \<and>
        (\<forall>(w, k, c) \<in> set (split_passes unitCount workerCount 0).
            1 \<le> w div k \<and> w - w div k < w \<and> c < workerCount \<and> wd ! c = w div k))"
proof -
  from WorkSplitter_entries[OF assms, of unitCount] obtain wd where
    wd: "WorkSplitter unitCount workerCount = Inr wd" and len: "length wd = workerCount"
    by blast
  have "split_loop unitCount workerCount 0 (replicate workerCount 0) =
          Inr (length (split_passes unitCount workerCount 0), wd) \<and>
        length (split_passes unitCount workerCount 0) \<le> workerCount \<and>
        (\<forall>(w, k, c) \<in> set (split_passes unitCount workerCount 0).
            1 \<le> w div k \<and> w - w div k < w \<and> c < workerCount \<and> wd ! c = w div k)"
    if lt: "workerCount < unitCount"
  proof -
    have le: "workerCount \<le> unitCount" using lt by simp
    note inv = split_passes_inv[OF assms le, of 0]
    obtain n wd' where r: "split_loop unitCount workerCount 0 (replicate workerCount 0) = Inr (n, wd')"
      using split_loop_result[OF assms le, of 0 "replicate workerCount 0"] by simp
    then have same: "wd' = wd" using wd lt by (simp add: WorkSplitter_def)
    have count: "n = length (split_passes unitCount workerCount 0)"
      using split_loop_passes[OF r] by simp
    have "1 \<le> w div k \<and> w - w div k < w \<and> c < workerCount \<and> wd ! c = w div k"
      if "(w, k, c) \<in> set (split_passes unitCount workerCount 0)" for w k c
    proof -
      from inv that have "1 \<le> k" "k \<le> w" "c < workerCount" by auto
      then have "1 \<le> w div k" by (simp add: div_greater_zero_iff Suc_le_eq)
      moreover have "wd ! c = w div k" using split_loop_writes[OF r] that same by auto
      ultimately show ?thesis using \<open>c < workerCount\<close> \<open>1 \<le> k\<close> \<open>k \<le> w\<close> by simp
    qed
    then show ?thesis using r inv same count by auto
  qed
  then show ?thesis using wd len by blast
qed

text \<open>
  Claim C9 at seven units for three workers: three passes.
\<close>

theorem WorkSplitter_terminates_witness:
  "(1::nat) \<le> 3 \<and> WorkSplitter 7 3 = Inr [2, 2, 3] \<and>
   split_passes 7 3 0 = [(7, 3, 0), (5, 2, 1), (3, 1, 2)] \<and>
   split_loop 7 3 0 (replicate 3 0) = Inr (3, [2, 2, 3])"
proof -
  note w = WorkSplitter_7_3
  have p: "split_passes 7 3 0 = [(7, 3, 0), (5, 2, 1), (3, 1, 2)]"
    by (simp add: split_passes.simps)
  from WorkSplitter_terminates[of 3 7] w p show ?thesis by simp
qed

text \<open>
  Claim C2, amended. With more units than workers, the remainder goes to the last
  workers: worker \<open>i\<close> receives the rounded-up quotient exactly when
  \<open>workerCount - unitCount mod workerCount \<le> i\<close>, and the rounded-down quotient otherwise.
\<close>

theorem WorkSplitter_remainder_late:
  assumes "0 < workerCount" and "workerCount < unitCount"
  shows "\<exists>wd. WorkSplitter unitCount workerCount = Inr wd \<and>
     (\<forall>i<workerCount. GetPartWork wd i =
        Inr (if workerCount - unitCount mod workerCount \<le> i
             then nat \<lceil>real unitCount / real workerCount\<rceil>
             else unitCount div workerCount))"
proof -
  have k1: "1 \<le> workerCount" using assms by simp
  have r: "unitCount mod workerCount < workerCount" using assms by simp
  have "GetPartWork (spread unitCount workerCount) i =
        Inr (if workerCount - unitCount mod workerCount \<le> i
             then nat \<lceil>real unitCount / real workerCount\<rceil>
             else unitCount div workerCount)" if "i < workerCount" for i
  proof (cases "workerCount - unitCount mod workerCount \<le> i")
    case True
    then have "unitCount mod workerCount \<noteq> 0" using that by auto
    then show ?thesis
      using True that ceiling_div_nat[OF assms(1), of unitCount]
      by (simp add: GetPartWork_def length_spread[OF k1] nth_spread)
  next
    case False
    then show ?thesis using that
      by (simp add: GetPartWork_def length_spread[OF k1] nth_spread)
  qed
  then show ?thesis using WorkSplitter_large[OF k1 assms(2)] by blast
qed

text \<open>
  Claim C2, amended, at seven units for three workers: the last worker gets three units,
  the first gets two.
\<close>

theorem WorkSplitter_remainder_late_witness:
  "(0::nat) < 3 \<and> (3::nat) < 7 \<and> WorkSplitter 7 3 = Inr [2, 2, 3] \<and>
   GetPartWork [2, 2, 3] 2 = Inr (nat \<lceil>real 7 / real 3\<rceil>) \<and>
   GetPartWork [2, 2, 3] 0 = Inr (7 div 3)"
proof -
  note w = WorkSplitter_7_3
  from WorkSplitter_remainder_late[of 3 7] w
  have "\<forall>i<3. GetPartWork [2, 2, 3] i =
        Inr (if 3 - 7 mod 3 \<le> i then nat \<lceil>real 7 / real 3\<rceil> else 7 div 3)"
    by simp
  then have "GetPartWork [2, 2, 3] 2 = Inr (if (3::nat) - 7 mod 3 \<le> 2 then nat \<lceil>real 7 / real 3\<rceil> else 7 div 3)"
    and "GetPartWork [2, 2, 3] 0 = Inr (if (3::nat) - 7 mod 3 \<le> 0 then nat \<lceil>real 7 / real 3\<rceil> else 7 div 3)"
    by simp_all
  then show ?thesis using w by simp
qed

text \<open>
  Claim C2 as stated fails: with seven units and three workers, worker 0 has an index
  below \<open>7 mod 3 = 1\<close> and receives two units, not the rounded-up quotient three.
\<close>

theorem remainder_early_counterexample:
  "(0::nat) < 3 \<and> (3::nat) < 7 \<and> WorkSplitter 7 3 = Inr [2, 2, 3] \<and> (0::nat) < 7 mod 3 \<and>
   GetPartWork [2, 2, 3] 0 = Inr 2 \<and> nat \<lceil>real 7 / real 3\<rceil> = 3"
proof -
  have "\<lceil>(7::real) / 3\<rceil> = 3" by (rule ceiling_unique) simp_all
  then show ?thesis
    by (simp add: WorkSplitter_7_3 GetPartWork_def)
qed

section \<open>Properties of the sequential computations\<close>

lemma M_body_max: "M_body f s M = max M (slope f s)"
  by (simp add: M_body_def slope_def Let_def max_def)

lemma M_loop_foldl:
  "i \<le> length y \<Longrightarrow> M_loop f y i M = foldl max M (map (slope f) (drop i y))"
proof (induction f y i M rule: M_loop.induct)
  case (1 f y i M)
  show ?case
  proof (cases "i < length y")
    case True
    have "drop i y = y ! i # drop (Suc i) y" using True by (rule Cons_nth_drop_Suc[symmetric])
    moreover have "M_loop f y i M = M_loop f y (Suc i) (M_body f (y ! i) M)"
      using True by (subst M_loop.simps) simp
    ultimately show ?thesis using "1.IH"[OF True] True by (simp add: M_body_max)
  next
    case False
    then show ?thesis using "1.prems" by (subst M_loop.simps) simp
  qed
qed

lemma Calculate_M_seq_foldl: "Calculate_M_seq f y = foldl max 0 (map (slope f) y)"
  using M_loop_foldl[of 0 y f 0] by (simp add: Calculate_M_seq_def)

lemma foldl_max_Max: "foldl max (a::real) xs = Max (insert a (set xs))"
proof (induction xs arbitrary: a)
  case Nil
  show ?case by simp
next
  case (Cons x xs)
  have "Max (insert (max a x) (set xs)) = Max (insert a (insert x (set xs)))"
  proof (cases "set xs = {}")
    case True
    then show ?thesis by (simp add: max.commute)
  next
    case False
    then show ?thesis by (simp add: max.assoc)
  qed
  then show ?case using Cons.IH[of "max a x"] by simp
qed

lemma foldl_max_append:
  "foldl max (a::real) (xs @ ys) = max (foldl max a xs) (foldl max a ys)"
proof -
  have "Max (insert a (set xs \<union> set ys)) = max (Max (insert a (set xs))) (Max (insert a (set ys)))"
    using Max_Un[of "insert a (set xs)" "insert a (set ys)"] by (simp add: insert_commute)
  then show ?thesis unfolding foldl_max_Max by simp
qed

lemma Calculate_M_seq_Max: "Calculate_M_seq f y = Max (insert 0 (slope f ` set y))"
  by (simp add: Calculate_M_seq_foldl foldl_max_Max)

lemma Calculate_M_seq_nonneg: "0 \<le> Calculate_M_seq f y"
  by (simp add: Calculate_M_seq_Max)

lemma Calculate_M_seq_ge: "s \<in> set y \<Longrightarrow> slope f s \<le> Calculate_M_seq f y"
  by (simp add: Calculate_M_seq_Max)

lemma Calculate_M_seq_append:
  "Calculate_M_seq f (xs @ ys) = max (Calculate_M_seq f xs) (Calculate_M_seq f ys)"
  unfolding Calculate_M_seq_foldl map_append by (rule foldl_max_append)







lemma R_loop_scan:
  "i \<le> length y \<Longrightarrow> R_loop f y m i acc = R_scan f m acc i (drop i y)"
proof (induction f y m i acc rule: R_loop.induct)
  case (1 f y m i acc)
  show ?case
  proof (cases "i < length y")
    case True
    have "drop i y = y ! i # drop (Suc i) y" using True by (rule Cons_nth_drop_Suc[symmetric])
    moreover have "R_loop f y m i acc = R_loop f y m (Suc i) (R_body f m (y ! i) i acc)"
      using True by (subst R_loop.simps) simp
    ultimately show ?thesis using "1.IH"[OF True] True by simp
  next
    case False
    then show ?thesis using "1.prems" by (subst R_loop.simps) simp
  qed
qed

lemma CalculateIndexOfMaxR_seq_scan:
  "CalculateIndexOfMaxR_seq f y m = R_scan f m (- DBL_MAX, - 1) 0 y"
  using R_loop_scan[of 0 y f m] by (simp add: CalculateIndexOfMaxR_seq_def)






text \<open>
  Claim C10. On the empty collection the sequential selector returns the pair
  \<open>(-DBL_MAX, -1)\<close>, and reading any collection at the index of that pair throws.
\<close>

theorem CalculateIndexOfMaxR_seq_empty:
  "CalculateIndexOfMaxR_seq f [] m = (- DBL_MAX, - 1) \<and>
   vector_at y (snd (CalculateIndexOfMaxR_seq f [] m)) = Inl OutOfRange"
  by (simp add: CalculateIndexOfMaxR_seq_scan vector_at_def)

text \<open>Claim C10 for the identity function, read against a collection of one segment.\<close>

theorem CalculateIndexOfMaxR_seq_empty_witness:
  "CalculateIndexOfMaxR_seq (\<lambda>x. x) [] 1 = (- DBL_MAX, - 1) \<and>
   vector_at [\<lparr>seg_begin = 0, seg_end = 1\<rparr>] (snd (CalculateIndexOfMaxR_seq (\<lambda>x. x) [] 1)) = Inl OutOfRange"
  by (rule CalculateIndexOfMaxR_seq_empty)

section \<open>Properties of the distributed computations\<close>

lemma sum_list_take_le: "sum_list (take n (ws::nat list)) \<le> sum_list ws"
proof -
  have "sum_list ws = sum_list (take n ws) + sum_list (drop n ws)"
    by (metis append_take_drop_id sum_list_append)
  then show ?thesis by simp
qed

lemma sum_list_take_Suc:
  "p < length (ws::nat list) \<Longrightarrow> sum_list (take (Suc p) ws) = sum_list (take p ws) + ws ! p"
  by (simp add: take_Suc_conv_app_nth)

lemma send_block_slice:
  assumes "p < length ws" and "sum_list ws \<le> length y"
  shows "(if ws ! p \<noteq> 0 then send_block y (sum_list (take p ws)) (ws ! p) else Inr []) =
         Inr (slice ws y p)"
proof -
  have "sum_list (take p ws) + ws ! p \<le> length y"
    using sum_list_take_le[of "Suc p" ws] sum_list_take_Suc[OF assms(1)] assms(2) by simp
  then show ?thesis by (auto simp: send_block_def slice_def)
qed


lemma scatter_M_slices:
  "length ws = procCount \<Longrightarrow> procNum \<le> procCount \<Longrightarrow> sum_list ws \<le> length y \<Longrightarrow>
   scatter_M y ws procCount procNum = Inr (map (slice ws y) [procNum..<procCount])"
proof (induction y ws procCount procNum rule: scatter_M.induct)
  case (1 y ws procCount procNum)
  show ?case
  proof (cases "procNum < procCount")
    case True
    then have lt: "procNum < length ws" using "1.prems" by simp
    have g: "GetPartWork ws procNum = Inr (ws ! procNum)" using lt by (simp add: GetPartWork_def)
    have p: "GetPrevPartWork ws procNum = Inr (sum_list (take procNum ws))"
      using lt by (simp add: GetPrevPartWork_result)
    have s: "(if ws ! procNum \<noteq> 0 then
                (case GetPrevPartWork ws procNum of Inl e \<Rightarrow> Inl e
                 | Inr workForPrevProc \<Rightarrow> send_block y workForPrevProc (ws ! procNum))
              else Inr []) = Inr (slice ws y procNum)"
      unfolding p sum.case by (rule send_block_slice[OF lt "1.prems"(3)])
    have "scatter_M y ws procCount (Suc procNum) = Inr (map (slice ws y) [Suc procNum..<procCount])"
      using "1.IH"[OF True g s] "1.prems" True by simp
    then show ?thesis
      using True g s by (subst scatter_M.simps) (simp add: upt_conv_Cons)
  next
    case False
    then show ?thesis using "1.prems" by (subst scatter_M.simps) simp
  qed
qed

lemma own_block_slice:
  "0 < length ws \<Longrightarrow> sum_list ws \<le> length y \<Longrightarrow> own_block y (ws ! 0) = Inr (slice ws y 0)"
proof -
  assume a: "0 < length ws" "sum_list ws \<le> length y"
  have "ws ! 0 \<le> sum_list ws"
    using sum_list_take_le[of "Suc 0" ws] sum_list_take_Suc[OF a(1)] by simp
  then show ?thesis using a by (simp add: own_block_def slice_def)
qed

lemma take_sum_Suc:
  assumes "p < length ws"
  shows "take (sum_list (take (Suc p) ws)) y = take (sum_list (take p ws)) y @ slice ws y p"
  by (simp add: sum_list_take_Suc[OF assms] take_add slice_def)

lemma concat_slices:
  "n \<le> length ws \<Longrightarrow> concat (map (slice ws y) [0..<n]) = take (sum_list (take n ws)) y"
proof (induction n)
  case 0
  show ?case by simp
next
  case (Suc n)
  then show ?case by (simp add: take_sum_Suc)
qed















lemma foldl_max_Calculate_M_seq:
  "foldl max (Calculate_M_seq f xs) (map (Calculate_M_seq f) ss) =
   Calculate_M_seq f (xs @ concat ss)"
proof (induction ss arbitrary: xs)
  case Nil
  show ?case by simp
next
  case (Cons s ss)
  show ?case using Cons.IH[of "xs @ s"] by (simp add: Calculate_M_seq_append)
qed

lemma Calculate_M_par_seq:
  assumes k: "1 \<le> procCount"
  shows "Calculate_M_par f y procCount = Inr (Calculate_M_seq f y)"
proof -
  from WorkSplitter_entries[OF k, of "length y"] obtain ws where
    ws: "WorkSplitter (length y) procCount = Inr ws" and len: "length ws = procCount"
    and sum: "sum_list ws = length y"
    by blast
  have pos: "0 < length ws" using k len by simp
  have le: "sum_list ws \<le> length y" using sum by simp
  have g0: "GetPartWork ws 0 = Inr (ws ! 0)" using pos by (simp add: GetPartWork_def)
  have sc: "scatter_M y ws procCount 1 = Inr (map (slice ws y) [1..<procCount])"
    using len k le by (intro scatter_M_slices) simp_all
  have ob: "own_block y (ws ! 0) = Inr (slice ws y 0)" by (rule own_block_slice[OF pos le])
  have "slice ws y 0 @ concat (map (slice ws y) [1..<procCount]) =
        concat (map (slice ws y) [0..<procCount])"
    using k by (simp add: upt_conv_Cons)
  also have "\<dots> = y" using concat_slices[of procCount ws y] len sum by simp
  finally have all: "slice ws y 0 @ concat (map (slice ws y) [1..<procCount]) = y" .
  have "Calculate_M_par f y procCount =
        Inr (foldl max (Calculate_M_seq f (slice ws y 0))
               (map (Calculate_M_seq f) (map (slice ws y) [1..<procCount])))"
    unfolding Calculate_M_par_def ws sum.case g0 sc ob by simp
  then show ?thesis unfolding foldl_max_Calculate_M_seq all .
qed

lemma WorkSplitter_no_workers:
  "WorkSplitter work 0 = (if work = 0 then Inr [] else Inl DivisionByZero)"
  by (simp add: WorkSplitter_def fill_loop.simps split_loop.simps)

lemma Calculate_M_par_no_workers: "\<exists>e. Calculate_M_par f y 0 = Inl e"
  by (simp add: Calculate_M_par_def WorkSplitter_no_workers GetPartWork_def)

lemma CalculateIndexOfMaxR_par_no_workers: "\<exists>e. CalculateIndexOfMaxR_par f y m 0 = Inl e"
  by (simp add: CalculateIndexOfMaxR_par_def WorkSplitter_no_workers GetPartWork_def)




section \<open>Properties of binary64 rounding\<close>

lemma two_powi_mono: "e \<le> e' \<Longrightarrow> (2::real) powi e \<le> 2 powi e'"
  by (rule power_int_increasing) simp_all

lemma two_powi_Suc: "(2::real) powi (e + 1) = 2 * 2 powi e"
  by (simp add: power_int_add)

lemma exponent_from_eq:
  "e0 \<le> e \<Longrightarrow> e - e0 \<le> int n \<Longrightarrow> 2 powi e \<le> m \<or> e = e0 \<Longrightarrow> m < 2 powi (e + 1) \<Longrightarrow>
   exponent_from n e0 m = e"
proof (induction n arbitrary: e0)
  case 0
  then show ?case by simp
next
  case (Suc n)
  show ?case
  proof (cases "m < 2 powi (e0 + 1)")
    case True
    have "e = e0"
    proof (rule ccontr)
      assume ne: "e \<noteq> e0"
      then have "e0 + 1 \<le> e" using Suc.prems(1) by simp
      then have "(2::real) powi (e0 + 1) \<le> 2 powi e" by (rule two_powi_mono)
      moreover have "2 powi e \<le> m" using Suc.prems(3) ne by simp
      ultimately show False using True by simp
    qed
    then show ?thesis using True by simp
  next
    case False
    have ne: "e \<noteq> e0" using False Suc.prems(4) by auto
    then have "e0 + 1 \<le> e" using Suc.prems(1) by simp
    moreover have "e - (e0 + 1) \<le> int n" using Suc.prems(2) by simp
    moreover have "2 powi e \<le> m \<or> e = e0 + 1" using Suc.prems(3) ne by simp
    ultimately have "exponent_from n (e0 + 1) m = e" using Suc.prems(4) by (rule Suc.IH)
    then show ?thesis using False by simp
  qed
qed

lemma exponent_from_top:
  "2 powi (e0 + int n) \<le> m \<Longrightarrow> exponent_from n e0 m = e0 + int n"
proof (induction n arbitrary: e0)
  case 0
  then show ?case by simp
next
  case (Suc n)
  have "(2::real) powi (e0 + 1) \<le> 2 powi (e0 + int (Suc n))" by (rule two_powi_mono) simp
  then have "\<not> m < 2 powi (e0 + 1)" using Suc.prems by simp
  moreover have "exponent_from n (e0 + 1) m = e0 + 1 + int n"
    using Suc.prems by (intro Suc.IH) (simp add: add.assoc)
  ultimately show ?case by simp
qed

lemma exponent_normal:
  "- 1022 \<le> e \<Longrightarrow> e \<le> 1023 \<Longrightarrow> 2 powi e \<le> m \<Longrightarrow> m < 2 powi (e + 1) \<Longrightarrow> exponent m = e"
  unfolding exponent_def by (rule exponent_from_eq) simp_all

lemma exponent_small: "m < 2 powi (- 1021) \<Longrightarrow> exponent m = - 1022"
  unfolding exponent_def by (rule exponent_from_eq) simp_all

lemma exponent_huge: "2 powi 1023 \<le> m \<Longrightarrow> exponent m = 1023"
  unfolding exponent_def using exponent_from_top[of "- 1022" 2045 m] by simp

lemma round_even_int: "round_even (of_int n) = n"
  by (simp add: round_even_def)

lemma round_mag_zero: "round_mag s 0 = Finite s 0"
  by (simp add: round_mag_def round_even_def)

lemma round_mag_powi:
  assumes "- 1022 \<le> e" and "e \<le> 1023"
  shows "round_mag s (2 powi e) = Finite s (2 powi e)"
proof -
  have "(2::real) powi e < 2 powi (e + 1)" by (simp add: two_powi_Suc)
  then have ex: "exponent (2 powi e) = e" using assms by (intro exponent_normal) simp_all
  have q: "(2::real) powi e / 2 powi (e - 52) = of_int (2 ^ 52)"
    by (simp add: power_int_diff)
  have r: "of_int (round_even ((2::real) powi e / 2 powi (e - 52))) * 2 powi (e - 52) = (2::real) powi e"
    unfolding q round_even_int by (simp add: power_int_diff)
  have "(2::real) powi e < 2 powi 1024"
    using assms by (intro power_int_strict_increasing) simp_all
  then show ?thesis unfolding round_mag_def ex Let_def r by simp
qed


lemma round_mag_one: "round_mag s 1 = Finite s 1"
  using round_mag_powi[of 0 s] by simp

lemma round_mag_two: "round_mag s 2 = Finite s 2"
  using round_mag_powi[of 1 s] by simp

lemma round_mag_overflow: "round_mag s (2 powi 1024) = Infinity s"
proof -
  have "(2::real) powi 1023 \<le> 2 powi 1024" by (rule two_powi_mono) simp
  then have ex: "exponent (2 powi 1024) = 1023" by (rule exponent_huge)
  have q: "(2::real) powi 1024 / 2 powi (1023 - 52) = of_int (2 ^ 53)"
    by (simp add: power_int_diff)
  have r: "of_int (round_even ((2::real) powi 1024 / 2 powi (1023 - 52))) * 2 powi (1023 - 52)
             = (2::real) powi 1024"
    unfolding q round_even_int by (simp add: power_int_diff)
  show ?thesis unfolding round_mag_def ex Let_def r by simp
qed

text \<open>The tie between 1 and its successor goes to 1, whose last bit is even.\<close>

lemma round_mag_tie: "round_mag s (1 + 2 powi (- 53)) = Finite s 1"
proof -
  let ?m = "1 + (2::real) powi (- 53)"
  have "(2::real) powi 0 \<le> ?m" and "?m < 2 powi (0 + 1)" by simp_all
  then have ex: "exponent ?m = 0" by (intro exponent_normal) simp_all
  have q: "?m / 2 powi (0 - 52) = of_int (2 ^ 52) + 1 / 2"
    by (simp add: field_simps)
  have fl: "\<lfloor>of_int (2 ^ 52) + (1::real) / 2\<rfloor> = 2 ^ 52"
    by (rule floor_unique) simp_all
  have re: "round_even (of_int (2 ^ 52) + 1 / 2) = 2 ^ 52"
    unfolding round_even_def fl Let_def by simp
  have r: "of_int (round_even (?m / 2 powi (0 - 52))) * 2 powi (0 - 52) = (1::real)"
    unfolding q re by simp
  show ?thesis unfolding round_mag_def ex Let_def r by simp
qed

section \<open>The optimization loop on an objective function of large values\<close>

lemma M_loop_b64_single:
  "M_loop_b64 f [s] 0 M = M_body_b64 f s M"
  by (subst M_loop_b64.simps, subst M_loop_b64.simps) simp

lemma R_loop_b64_single:
  "R_loop_b64 f [s] m 0 acc = R_body_b64 f m s 0 acc"
  by (subst R_loop_b64.simps, subst R_loop_b64.simps) simp

lemma d_sub_same: "d_sub (Finite False c) (Finite False c) = Finite False 0"
  by (simp add: d_sub_def valof_def)

lemma d_sub_one_zero: "d_sub d_one d_zero = d_one"
  by (simp add: d_sub_def d_one_def d_zero_def valof_def round_real_def round_mag_one)

lemma d_div_zero_one: "d_div (Finite False 0) d_one = Finite False 0"
  by (simp add: d_one_def round_mag_zero)

lemma d_mul_one_one: "d_mul d_one d_one = d_one"
  by (simp add: d_one_def round_mag_one)

lemma d_mul_zero_zero: "d_mul (Finite False 0) (Finite False 0) = Finite False 0"
  by (simp add: round_mag_zero)

lemma d_add_one_zero: "d_add d_one (Finite False 0) = d_one"
  by (simp add: d_one_def valof_def round_real_def round_mag_one)

lemma d_add_overflow: "d_add (Finite False (2 powi 1023)) (Finite False (2 powi 1023)) = Infinity False"
proof -
  have sum: "valof False (2 powi 1023) + valof False (2 powi 1023) = (2::real) powi 1024"
    using two_powi_Suc[of 1023] by (simp add: valof_def del: power_int_numeral)
  have pos: "(0::real) < 2 powi 1024" by (rule zero_less_power_int) simp
  then have "(2::real) powi 1024 \<noteq> 0" and "\<not> (2::real) powi 1024 < 0"
    and "\<bar>(2::real) powi 1024\<bar> = 2 powi 1024"
    by linarith+
  then show ?thesis
    unfolding d_add.simps sum Let_def round_real_def by (simp only: if_False round_mag_overflow)
qed


text \<open>
  A constant objective function whose value added to itself overflows, on \<open>[0, 1]\<close>: the
  estimate is 0, the correction term 1, the only characteristic is \<open>-\<infinity>\<close>, which is not
  above \<open>-DBL_MAX\<close>, and the selector returns its initial pair.
\<close>

lemma overflowing_constant_M:
  "Calculate_M_b64 (\<lambda>x. Finite False c) [\<lparr>sb_begin = d_zero, sb_end = d_one\<rparr>] = d_zero"
  unfolding Calculate_M_b64_def M_loop_b64_single
  by (simp add: M_body_b64_def d_sub_same d_sub_one_zero d_div_zero_one) (simp add: d_zero_def valof_def)

lemma Calculate_m_b64_zero: "Calculate_m_b64 d_zero d_two = Inr d_one"
  by (simp add: Calculate_m_b64_def d_le_def d_zero_def d_one_def d_two_def valof_def)

lemma overflowing_constant_selector:
  assumes "d_add (Finite False c) (Finite False c) = Infinity False"
  shows "CalculateIndexOfMaxR_b64 (\<lambda>x. Finite False c) [\<lparr>sb_begin = d_zero, sb_end = d_one\<rparr>] d_one
           = (d_neg d_DBL_MAX, - 1)"
proof -
  have R: "d_sub (d_add (d_mul d_one d_one)
                    (d_div (d_mul (Finite False 0) (Finite False 0)) (d_mul d_one d_one)))
                 (d_mul d_two (Infinity False)) = Infinity True"
    unfolding d_mul_one_one d_mul_zero_zero d_div_zero_one d_add_one_zero
    by (simp add: d_sub_def d_one_def d_two_def)
  have "R_body_b64 (\<lambda>x. Finite False c) d_one \<lparr>sb_begin = d_zero, sb_end = d_one\<rparr> 0
          (d_neg d_DBL_MAX, - 1) =
        (if d_less (d_neg d_DBL_MAX) (Infinity True) then (Infinity True, int 0)
         else (d_neg d_DBL_MAX, - 1))"
    unfolding R_body_b64_def Let_def
    by (simp only: Segment_b64.select_convs d_sub_same d_sub_one_zero assms R fst_conv)
  also have "\<dots> = (d_neg d_DBL_MAX, - 1)" by (simp add: d_DBL_MAX_def)
  finally show ?thesis unfolding CalculateIndexOfMaxR_b64_def R_loop_b64_single .
qed

lemma overflowing_constant_body:
  assumes "d_add (Finite False c) (Finite False c) = Infinity False"
  shows "GetMin_body (\<lambda>x. Finite False c) epsilon [\<lparr>sb_begin = d_zero, sb_end = d_one\<rparr>]
           = Inl OutOfRange"
  unfolding GetMin_body_def Let_def overflowing_constant_M Calculate_m_b64_zero sum.case
    overflowing_constant_selector[OF assms]
  by (simp add: vector_at_def)

lemma overflowing_constant_run:
  assumes "d_add (Finite False c) (Finite False c) = Infinity False"
  shows "GetMin (\<lambda>x. Finite False c) d_zero d_one epsilon = Inl OutOfRange"
  unfolding GetMin_def
  by (subst GetMin_loop.simps) (simp add: overflowing_constant_body[OF assms] maxIterationCount_def)

section \<open>The optimization loop on an interval one unit in the last place wide\<close>

lemma DBL_MAX_pos: "0 < DBL_MAX"
  by (simp add: DBL_MAX_def)

lemmas round_mag_ulp = round_mag_powi[of "- 52", simplified]
lemmas round_mag_half_ulp = round_mag_powi[of "- 53", simplified]
lemmas round_mag_tie' = round_mag_tie[simplified]

lemma ulp_sub: "d_sub (Finite False (1 + 2 powi (- 52))) d_one = Finite False (2 powi (- 52))"
  by (simp add: d_sub_def d_one_def valof_def round_real_def round_mag_ulp)

lemma ulp_half: "d_div (Finite False (2 powi (- 52))) d_two = Finite False (2 powi (- 53))"
  by (simp add: d_two_def round_mag_half_ulp)

lemma ulp_midpoint: "d_add d_one (Finite False (2 powi (- 53))) = d_one"
  using round_mag_tie'[of False]
  by (simp add: d_one_def valof_def round_real_def)


lemma M_loop_b64_dead:
  "(\<And>i. i0 \<le> i \<Longrightarrow> i < length y \<Longrightarrow> M_body_b64 f (y ! i) M = M) \<Longrightarrow>
   M_loop_b64 f y i0 M = M"
proof (induction f y i0 M rule: M_loop_b64.induct)
  case (1 f y i M)
  show ?case
  proof (cases "i < length y")
    case True
    have b: "M_body_b64 f (y ! i) M = M" using "1.prems"[of i] True by simp
    have "M_loop_b64 f y (Suc i) (M_body_b64 f (y ! i) M) = M_body_b64 f (y ! i) M"
      using True "1.prems" b by (intro "1.IH") simp_all
    then show ?thesis using True b by (subst M_loop_b64.simps) simp
  next
    case False
    then show ?thesis by (subst M_loop_b64.simps) simp
  qed
qed

lemma R_loop_b64_dead:
  "(\<And>i. i0 \<le> i \<Longrightarrow> i < length y \<Longrightarrow> R_body_b64 f m (y ! i) i acc = acc) \<Longrightarrow>
   R_loop_b64 f y m i0 acc = acc"
proof (induction f y m i0 acc rule: R_loop_b64.induct)
  case (1 f y m i acc)
  show ?case
  proof (cases "i < length y")
    case True
    have b: "R_body_b64 f m (y ! i) i acc = acc" using "1.prems"[of i] True by simp
    have "R_loop_b64 f y m (Suc i) (R_body_b64 f m (y ! i) i acc) = R_body_b64 f m (y ! i) i acc"
      using True "1.prems" b by (intro "1.IH") simp_all
    then show ?thesis using True b by (subst R_loop_b64.simps) simp
  next
    case False
    then show ?thesis by (subst R_loop_b64.simps) simp
  qed
qed

lemma zero_sub_zero: "d_sub d_zero d_zero = d_zero"
  by (simp add: d_sub_def d_zero_def valof_def)

lemma zero_add_zero: "d_add d_zero d_zero = d_zero"
  by (simp add: d_zero_def valof_def)

lemma one_sub_one: "d_sub d_one d_one = d_zero"
  by (simp add: d_sub_def d_one_def d_zero_def valof_def)

text \<open>The segment \<open>[1, 1 + 2 powi -52]\<close> under the zero function: quotient 0, characteristic
  \<open>2 powi -52\<close>.\<close>

lemma narrow_M_body:
  "M_body_b64 (\<lambda>x. d_zero) \<lparr>sb_begin = d_one, sb_end = Finite False (1 + 2 powi (- 52))\<rparr> d_zero
     = d_zero"
  unfolding M_body_b64_def Let_def
  by (simp only: Segment_b64.select_convs zero_sub_zero ulp_sub)
     (simp add: d_zero_def round_mag_zero valof_def)

lemma narrow_R_body:
  "R_body_b64 (\<lambda>x. d_zero) d_one \<lparr>sb_begin = d_one, sb_end = Finite False (1 + 2 powi (- 52))\<rparr> 0
     (d_neg d_DBL_MAX, - 1) = (Finite False (2 powi (- 52)), 0)"
proof -
  have R: "d_sub (d_add (d_mul d_one (Finite False (2 powi (- 52))))
                    (d_div (d_mul d_zero d_zero) (d_mul d_one (Finite False (2 powi (- 52))))))
                 (d_mul d_two (d_add d_zero d_zero)) = Finite False (2 powi (- 52))"
    by (simp add: d_sub_def d_zero_def d_one_def d_two_def valof_def round_real_def
        round_mag_zero round_mag_ulp)
  have "d_less (d_neg d_DBL_MAX) (Finite False (2 powi (- 52)))"
    using DBL_MAX_pos by (simp add: d_DBL_MAX_def valof_def)
  then show ?thesis
    unfolding R_body_b64_def Let_def
    by (simp only: Segment_b64.select_convs zero_sub_zero ulp_sub R fst_conv if_True of_nat_0)
qed

text \<open>A segment from 1 to 1: both the quotient and the characteristic are not-a-number,
  and no comparison with them holds.\<close>

lemma degenerate_M_body:
  "M_body_b64 (\<lambda>x. d_zero) \<lparr>sb_begin = d_one, sb_end = d_one\<rparr> d_zero = d_zero"
  unfolding M_body_b64_def Let_def
  by (simp only: Segment_b64.select_convs zero_sub_zero one_sub_one)
     (simp add: d_zero_def)

lemma degenerate_R_body:
  "R_body_b64 (\<lambda>x. d_zero) d_one \<lparr>sb_begin = d_one, sb_end = d_one\<rparr> i
     (Finite False (2 powi (- 52)), 0) = (Finite False (2 powi (- 52)), 0)"
proof -
  have R: "d_sub (d_add (d_mul d_one d_zero) (d_div (d_mul d_zero d_zero) (d_mul d_one d_zero)))
                 (d_mul d_two (d_add d_zero d_zero)) = NaN"
    by (simp add: d_sub_def d_zero_def d_one_def d_two_def valof_def round_mag_zero)
  show ?thesis
    unfolding R_body_b64_def Let_def
    by (simp only: Segment_b64.select_convs zero_sub_zero one_sub_one R fst_conv d_less.simps if_False)
qed


lemma narrow_nth:
  "i < Suc k \<Longrightarrow>
   (\<lparr>sb_begin = d_one, sb_end = b\<rparr> # replicate k \<lparr>sb_begin = d_one, sb_end = d_one\<rparr>) ! i =
     (if i = 0 then \<lparr>sb_begin = d_one, sb_end = b\<rparr> else \<lparr>sb_begin = d_one, sb_end = d_one\<rparr>)"
  by (cases i) simp_all

lemma narrow_M:
  "Calculate_M_b64 (\<lambda>x. d_zero)
     (\<lparr>sb_begin = d_one, sb_end = Finite False (1 + 2 powi (- 52))\<rparr> #
      replicate k \<lparr>sb_begin = d_one, sb_end = d_one\<rparr>) = d_zero"
  unfolding Calculate_M_b64_def
proof (rule M_loop_b64_dead)
  fix i
  assume "i < length (\<lparr>sb_begin = d_one, sb_end = Finite False (1 + 2 powi (- 52))\<rparr> #
      replicate k \<lparr>sb_begin = d_one, sb_end = d_one\<rparr>)"
  then have "i < Suc k" by simp
  then show "M_body_b64 (\<lambda>x. d_zero)
     ((\<lparr>sb_begin = d_one, sb_end = Finite False (1 + 2 powi (- 52))\<rparr> #
      replicate k \<lparr>sb_begin = d_one, sb_end = d_one\<rparr>) ! i) d_zero = d_zero"
    unfolding narrow_nth[OF \<open>i < Suc k\<close>]
    by (cases "i = 0") (simp_all only: if_True if_False narrow_M_body degenerate_M_body simp_thms)
qed

lemma narrow_selector:
  "CalculateIndexOfMaxR_b64 (\<lambda>x. d_zero)
     (\<lparr>sb_begin = d_one, sb_end = Finite False (1 + 2 powi (- 52))\<rparr> #
      replicate k \<lparr>sb_begin = d_one, sb_end = d_one\<rparr>) d_one = (Finite False (2 powi (- 52)), 0)"
proof -
  let ?y = "\<lparr>sb_begin = d_one, sb_end = Finite False (1 + 2 powi (- 52))\<rparr> #
      replicate k \<lparr>sb_begin = d_one, sb_end = d_one\<rparr>"
  have first: "R_loop_b64 (\<lambda>x. d_zero) ?y d_one 0 (d_neg d_DBL_MAX, - 1) =
               R_loop_b64 (\<lambda>x. d_zero) ?y d_one (Suc 0) (Finite False (2 powi (- 52)), 0)"
    by (subst R_loop_b64.simps) (simp only: length_Cons zero_less_Suc if_True nth_Cons_0 narrow_R_body)
  have rest: "R_loop_b64 (\<lambda>x. d_zero) ?y d_one (Suc 0) (Finite False (2 powi (- 52)), 0) =
              (Finite False (2 powi (- 52)), 0)"
  proof (rule R_loop_b64_dead)
    fix i
    assume "Suc 0 \<le> i" and "i < length ?y"
    then have "i < Suc k" and "i \<noteq> 0" by simp_all
    then show "R_body_b64 (\<lambda>x. d_zero) d_one (?y ! i) i (Finite False (2 powi (- 52)), 0) =
               (Finite False (2 powi (- 52)), 0)"
      unfolding narrow_nth[OF \<open>i < Suc k\<close>] by (simp only: if_False degenerate_R_body simp_thms)
  qed
  show ?thesis unfolding CalculateIndexOfMaxR_b64_def first rest ..
qed

text \<open>
  One pass on the collection that holds \<open>[1, 1 + 2 powi -52]\<close> and \<open>k\<close> segments from 1 to
  1: the new point is \<open>1 + 2 powi -53\<close> rounded, which is 1, and one more segment from 1 to
  1 is appended.
\<close>

lemma narrow_body:
  "GetMin_body (\<lambda>x. d_zero) (Finite False (2 powi (- 53)))
     (\<lparr>sb_begin = d_one, sb_end = Finite False (1 + 2 powi (- 52))\<rparr> #
      replicate k \<lparr>sb_begin = d_one, sb_end = d_one\<rparr>) =
   Inr (Continue
     (\<lparr>sb_begin = d_one, sb_end = Finite False (1 + 2 powi (- 52))\<rparr> #
      replicate (Suc k) \<lparr>sb_begin = d_one, sb_end = d_one\<rparr>))"
proof -
  let ?b = "Finite False (1 + 2 powi (- 52))"
  let ?y = "\<lparr>sb_begin = d_one, sb_end = ?b\<rparr> # replicate k \<lparr>sb_begin = d_one, sb_end = d_one\<rparr>"
  have at: "vector_at ?y (snd (Finite False (2 powi (- 52)), 0 :: int)) =
            Inr \<lparr>sb_begin = d_one, sb_end = ?b\<rparr>"
    by (simp add: vector_at_def)
  have long: "\<not> d_less (d_sub ?b d_one) (Finite False (2 powi (- 53)))"
    unfolding ulp_sub by (simp add: valof_def)
  have yn: "d_add (d_add d_one (d_div (d_sub ?b d_one) d_two))
              (d_div (d_sub d_zero d_zero) (d_mul d_two d_one)) = d_one"
    unfolding ulp_sub ulp_half ulp_midpoint zero_sub_zero
    by (simp add: d_zero_def d_one_def d_two_def round_mag_two round_mag_zero valof_def
        round_real_def round_mag_one)
  have upd: "(?y @ [\<lparr>sb_begin = d_one, sb_end = d_one\<rparr>])
               [nat (snd (Finite False (2 powi (- 52)), 0 :: int)) :=
                  ((?y @ [\<lparr>sb_begin = d_one, sb_end = d_one\<rparr>]) !
                     nat (snd (Finite False (2 powi (- 52)), 0 :: int)))\<lparr>sb_begin := d_one\<rparr>] =
             \<lparr>sb_begin = d_one, sb_end = ?b\<rparr> # replicate (Suc k) \<lparr>sb_begin = d_one, sb_end = d_one\<rparr>"
    by (simp add: replicate_append_same)
  show ?thesis
    unfolding GetMin_body_def Let_def narrow_M Calculate_m_b64_zero sum.case narrow_selector at
    by (simp only: Segment_b64.select_convs long if_False yn upd)
qed

lemma narrow_loop:
  "iterationIndex + n = maxIterationCount \<Longrightarrow>
   GetMin_loop (\<lambda>x. d_zero) (Finite False (2 powi (- 53)))
     (\<lparr>sb_begin = d_one, sb_end = Finite False (1 + 2 powi (- 52))\<rparr> #
      replicate k \<lparr>sb_begin = d_one, sb_end = d_one\<rparr>) iterationIndex = Inr NaN"
proof (induction n arbitrary: k iterationIndex)
  case 0
  then show ?case by (subst GetMin_loop.simps) simp
next
  case (Suc n)
  then have lt: "iterationIndex < maxIterationCount" by simp
  have "GetMin_loop (\<lambda>x. d_zero) (Finite False (2 powi (- 53)))
     (\<lparr>sb_begin = d_one, sb_end = Finite False (1 + 2 powi (- 52))\<rparr> #
      replicate (Suc k) \<lparr>sb_begin = d_one, sb_end = d_one\<rparr>) (Suc iterationIndex) = Inr NaN"
    using Suc.prems by (intro Suc.IH) simp
  then show ?case
    using lt by (subst GetMin_loop.simps) (simp only: if_True narrow_body sum.case pass.case)
qed

section \<open>Claims about the optimization loop\<close>

text \<open>
  Claim C3 does not hold of the code. On the interval from 1 to \<open>1 + 2 powi -52\<close>, with
  the zero function and \<open>epsilon = 2 powi -53\<close> (so \<open>a < b\<close> and \<open>epsilon > 0\<close>), the selector
  chooses segment 0, which is not shorter than \<open>epsilon\<close>; the new point is computed as 1,
  the begin of that segment, not a point strictly inside it; the pass leaves the segment
  as it was and appends a segment from 1 to 1, which has no \<open>begin < end\<close>. The run never
  converges and returns \<^verbatim>\<open>NAN\<close> after all its passes.
\<close>

theorem narrow_interval_degenerates:
  "d_less d_one (Finite False (1 + 2 powi (- 52))) \<and>
   d_less d_zero (Finite False (2 powi (- 53))) \<and>
   CalculateIndexOfMaxR_b64 (\<lambda>x. d_zero)
     [\<lparr>sb_begin = d_one, sb_end = Finite False (1 + 2 powi (- 52))\<rparr>] d_one =
     (Finite False (2 powi (- 52)), 0) \<and>
   GetMin_body (\<lambda>x. d_zero) (Finite False (2 powi (- 53)))
     [\<lparr>sb_begin = d_one, sb_end = Finite False (1 + 2 powi (- 52))\<rparr>] =
     Inr (Continue [\<lparr>sb_begin = d_one, sb_end = Finite False (1 + 2 powi (- 52))\<rparr>,
                    \<lparr>sb_begin = d_one, sb_end = d_one\<rparr>]) \<and>
   \<not> d_less (sb_begin \<lparr>sb_begin = d_one, sb_end = d_one\<rparr>)
              (sb_end \<lparr>sb_begin = d_one, sb_end = d_one\<rparr>) \<and>
   GetMinSequential (\<lambda>x. d_zero) d_one (Finite False (1 + 2 powi (- 52)))
     (Finite False (2 powi (- 53))) = Inr NaN"
proof -
  have ab: "d_less d_one (Finite False (1 + 2 powi (- 52)))"
    and eps: "d_less d_zero (Finite False (2 powi (- 53)))"
    and deg: "\<not> d_less (sb_begin \<lparr>sb_begin = d_one, sb_end = d_one\<rparr>)
                        (sb_end \<lparr>sb_begin = d_one, sb_end = d_one\<rparr>)"
    by (simp_all add: d_one_def d_zero_def valof_def)
  have run: "GetMinSequential (\<lambda>x. d_zero) d_one (Finite False (1 + 2 powi (- 52)))
     (Finite False (2 powi (- 53))) = Inr NaN"
    unfolding GetMinSequential_def GetMin_def
    using narrow_loop[of 0 maxIterationCount 0] by (simp only: add_0 replicate_0)
  show ?thesis
    using ab eps deg run narrow_selector[of 0] narrow_body[of 0]
    by (simp only: replicate_0 replicate_Suc simp_thms)
qed

text \<open>
  Claim C4 does not hold of the code. For the constant function of value \<open>2 powi 1023\<close>
  on \<open>[0, 1]\<close> with \<open>epsilon = 2\<close>, above the length of the interval, the sum of the two
  values overflows, the only characteristic is \<open>-\<infinity>\<close>, the selector returns its initial
  pair with index \<open>-1\<close>, and the first pass throws at \<^verbatim>\<open>y.at(-1)\<close> instead of returning
  the value of the function at an end of the interval.
\<close>

theorem overflow_first_pass_throws:
  "d_less d_zero d_one \<and> d_less (d_sub d_one d_zero) d_two \<and>
   CalculateIndexOfMaxR_b64 (\<lambda>x. Finite False (2 powi 1023))
     [\<lparr>sb_begin = d_zero, sb_end = d_one\<rparr>] d_one = (d_neg d_DBL_MAX, - 1) \<and>
   GetMinSequential (\<lambda>x. Finite False (2 powi 1023)) d_zero d_one d_two = Inl OutOfRange"
proof -
  have "d_less d_zero d_one" and "d_less (d_sub d_one d_zero) d_two"
    unfolding d_sub_one_zero by (simp_all add: d_zero_def d_one_def d_two_def valof_def)
  then show ?thesis
    unfolding GetMinSequential_def
    using overflowing_constant_selector[OF d_add_overflow]
      overflowing_constant_run[OF d_add_overflow, of d_two]
    by (simp only: simp_thms)
qed

text \<open>
  Claim C5 does not hold of the code. For the same function on \<open>[0, 1]\<close> with
  \<open>epsilon = 1/2\<close>, the only segment is not shorter than \<open>epsilon\<close>, so no pass can
  converge; the run does not make its 100000 passes and return \<^verbatim>\<open>NAN\<close>, it throws in
  the first pass.
\<close>

theorem overflow_run_not_exhausted:
  "d_less d_zero (Finite False (1 / 2)) \<and>
   \<not> d_less (d_sub d_one d_zero) (Finite False (1 / 2)) \<and>
   GetMin_body (\<lambda>x. Finite False (2 powi 1023)) (Finite False (1 / 2))
     [\<lparr>sb_begin = d_zero, sb_end = d_one\<rparr>] = Inl OutOfRange \<and>
   GetMinSequential (\<lambda>x. Finite False (2 powi 1023)) d_zero d_one (Finite False (1 / 2))
     = Inl OutOfRange \<and>
   GetMinSequential (\<lambda>x. Finite False (2 powi 1023)) d_zero d_one (Finite False (1 / 2))
     \<noteq> Inr NaN"
proof -
  have "d_less d_zero (Finite False (1 / 2))"
    and "\<not> d_less (d_sub d_one d_zero) (Finite False (1 / 2))"
    unfolding d_sub_one_zero by (simp_all add: d_zero_def d_one_def valof_def)
  moreover have run: "GetMinSequential (\<lambda>x. Finite False (2 powi 1023)) d_zero d_one
      (Finite False (1 / 2)) = Inl OutOfRange"
    unfolding GetMinSequential_def by (rule overflowing_constant_run[OF d_add_overflow])
  moreover have "GetMinSequential (\<lambda>x. Finite False (2 powi 1023)) d_zero d_one
      (Finite False (1 / 2)) \<noteq> Inr NaN"
    unfolding run by simp
  ultimately show ?thesis
    using overflowing_constant_body[OF d_add_overflow, of "Finite False (1 / 2)"]
    by (simp only: simp_thms)
qed

end
